theory Spec2Isabelle
  imports Complex_Main "HOL-Library.Sublist" "HOL-Library.Word"
begin

unbundle bit_operations_syntax

chapter \<open>falco: the module summaries and grades (Module.cpp, FalcoConfig.cpp)\<close>

text \<open>
  A shallow embedding of the functions of \<^verbatim>\<open>Module.cpp\<close> and of the configuration
  reader. Conventions:
  \<^item> \<^verbatim>\<open>size_t\<close> counters are \<open>nat\<close> (they count bases and reads of one input file);
    where the source subtracts two of them and tests the difference
    (\<^verbatim>\<open>get_corrected_count\<close>) they are \<open>64 word\<close>, so that the subtraction wraps;
  \<^item> \<^verbatim>\<open>double\<close> values are real numbers: rounding is not modelled;
  \<^item> \<^verbatim>\<open>std::string\<close> is \<open>string\<close>, \<^verbatim>\<open>std::vector\<close> and \<^verbatim>\<open>std::array\<close> are lists;
  \<^item> a \<^verbatim>\<open>throw\<close> is the \<open>Inl\<close> of a sum.
\<close>

section \<open>Definitions\<close>

subsection \<open>Strings of the standard library\<close>

datatype error = Runtime_error string

text \<open>\<^verbatim>\<open>isspace\<close> in the C locale: space, \<^verbatim>\<open>\t \n \v \f \r\<close>.\<close>

definition isspace :: "char \<Rightarrow> bool" where
  "isspace c = (c = CHR 0x20 \<or> c = CHR 0x09 \<or> c = CHR 0x0A \<or> c = CHR 0x0B
                \<or> c = CHR 0x0C \<or> c = CHR 0x0D)"

text \<open>
  \<^verbatim>\<open>s.find(t) != string::npos\<close>: \<open>string_find s t\<close> is the first position of \<open>s\<close> at
  which \<open>t\<close> starts, \<open>None\<close> for \<^verbatim>\<open>npos\<close>. The empty string is found at position 0.
\<close>

fun string_find :: "string \<Rightarrow> string \<Rightarrow> nat option" where
  "string_find [] t = (if t = [] then Some 0 else None)"
| "string_find (c # cs) t =
     (if prefix t (c # cs) then Some 0 else map_option Suc (string_find cs t))"

text \<open>The lines that successive \<^verbatim>\<open>getline(in, line)\<close> calls read from a file's content.\<close>

fun getlines :: "string \<Rightarrow> string \<Rightarrow> string list" where
  "getlines [] cur = (if cur = [] then [] else [cur])"
| "getlines (c # cs) cur =
     (if c = CHR 0x0A then cur # getlines cs [] else getlines cs (cur @ [c]))"

text \<open>The tokens that successive \<^verbatim>\<open>iss >> token\<close> extractions read from a line.\<close>

fun tokens :: "string \<Rightarrow> string \<Rightarrow> string list" where
  "tokens [] cur = (if cur = [] then [] else [cur])"
| "tokens (c # cs) cur =
     (if isspace c then (if cur = [] then tokens cs [] else cur # tokens cs [])
      else tokens cs (cur @ [c]))"

subsection \<open>FalcoConfig: the contaminant list\<close>

text \<open>
  One iteration of the \<^verbatim>\<open>while (getline(in, line))\<close> loop of
  \<^verbatim>\<open>FalcoConfig::read_contaminants_file\<close>. \<^verbatim>\<open>line[0]\<close> of an empty line is the
  terminating zero, which is not \<^verbatim>\<open>'#'\<close>. The source declares \<^verbatim>\<open>contaminant_seq = ""\<close>,
  later a second variable \<^verbatim>\<open>contaminent_seq(line_by_space.back())\<close>, and pushes the
  pair \<^verbatim>\<open>(contaminant_name, contaminant_seq)\<close>.
\<close>

definition read_contaminants_line ::
  "(string \<times> string) list \<Rightarrow> string \<Rightarrow> (string \<times> string) list" where
  "read_contaminants_line contaminants line =
     (if (case line of [] \<Rightarrow> True | c # _ \<Rightarrow> c \<noteq> CHR ''#'') then
        (let contaminant_seq = '''';
             line_by_space = tokens line []
         in if length line_by_space > 1 then
              (let contaminant_name = concat (map (\<lambda>t. t @ '' '') (butlast line_by_space));
                   contaminent_seq = last line_by_space
               in contaminants @ [(contaminant_name, contaminant_seq)])
            else contaminants)
      else contaminants)"

text \<open>
  \<^verbatim>\<open>FalcoConfig::read_contaminants_file\<close>: \<open>file\<close> is the content of the file named
  \<open>contaminants_file\<close>, \<open>None\<close> when it cannot be opened; the result is the member
  \<^verbatim>\<open>contaminants\<close> after the call.
\<close>

definition read_contaminants_file ::
  "string \<Rightarrow> string option \<Rightarrow> (string \<times> string) list \<Rightarrow> error + (string \<times> string) list" where
  "read_contaminants_file contaminants_file file contaminants =
     (case file of
        None \<Rightarrow> Inl (Runtime_error (''contaminants file not found: '' @ contaminants_file))
      | Some content \<Rightarrow>
          Inr (fold (\<lambda>line cs. read_contaminants_line cs line) (getlines content []) contaminants))"

subsection \<open>Contaminant matching\<close>

text \<open>
  The loop \<^verbatim>\<open>for (auto v : contaminants)\<close> of \<^verbatim>\<open>get_matching_contaminant\<close>, with the
  locals \<^verbatim>\<open>best\<close> and \<^verbatim>\<open>ret\<close>, and the code after the loop in the \<open>[]\<close> case. The
  function is defined twice in the source, with the same body:
  \<^verbatim>\<open>ModuleOverrepresentedSequences::get_matching_contaminant\<close> and
  \<^verbatim>\<open>FalcoConfig::get_matching_contaminant\<close>.
\<close>

fun matching_loop :: "(string \<times> string) list \<Rightarrow> string \<Rightarrow> nat \<Rightarrow> string \<Rightarrow> string" where
  "matching_loop [] seq best ret = (if best > 0 then ret else ''No Hit'')"
| "matching_loop (v # vs) seq best ret =
     (if length seq > length (snd v) then
        (if string_find seq (snd v) \<noteq> None then
           (if length (snd v) > best then matching_loop vs seq (length (snd v)) (fst v)
            else matching_loop vs seq best ret)
         else matching_loop vs seq best ret)
      else
        (if string_find (snd v) seq \<noteq> None then fst v
         else matching_loop vs seq best ret))"

definition get_matching_contaminant :: "(string \<times> string) list \<Rightarrow> string \<Rightarrow> string" where
  "get_matching_contaminant contaminants seq = matching_loop contaminants seq 0 ''''"

subsection \<open>Duplication: the extrapolation of counts\<close>

type_synonym size_t = "64 word"

text \<open>
  The \<^verbatim>\<open>for (size_t i = 0; i < count_at_limit; ++i)\<close> loop of \<^verbatim>\<open>get_corrected_count\<close>
  on the local \<^verbatim>\<open>p_not_seeing\<close>, with its \<^verbatim>\<open>break\<close>. The counter stays below
  \<open>count_at_limit\<close>, so it is a \<open>nat\<close>; the two differences are computed in \<^verbatim>\<open>size_t\<close>
  and then converted. The quotient is the exact one (and \<open>x / 0 = 0\<close>, where the source
  divides floating-point numbers by zero).
\<close>

function p_not_seeing_loop :: "size_t \<Rightarrow> size_t \<Rightarrow> size_t \<Rightarrow> real \<Rightarrow> nat \<Rightarrow> real \<Rightarrow> real" where
  "p_not_seeing_loop count_at_limit num_reads dup_level limit_of_caring i p_not_seeing =
     (if i < unat count_at_limit then
        (let p = p_not_seeing * (real (unat ((num_reads - of_nat i) - dup_level))
                                 / real (unat (num_reads - of_nat i)))
         in if p < limit_of_caring then 0
            else p_not_seeing_loop count_at_limit num_reads dup_level limit_of_caring (i + 1) p)
      else p_not_seeing)"
  by pat_completeness auto
termination
  by (relation "measure (\<lambda>(count_at_limit, num_reads, dup_level, limit_of_caring, i, p).
                   unat count_at_limit - i)") auto

declare p_not_seeing_loop.simps [simp del]

text \<open>
  \<^verbatim>\<open>get_corrected_count\<close>. \<^verbatim>\<open>return num_obs\<close> converts the \<^verbatim>\<open>size_t\<close> to the \<^verbatim>\<open>double\<close>
  result: \<open>real (unat num_obs)\<close>.
\<close>

definition get_corrected_count :: "size_t \<Rightarrow> size_t \<Rightarrow> size_t \<Rightarrow> size_t \<Rightarrow> real" where
  "get_corrected_count count_at_limit num_reads dup_level num_obs =
     (if count_at_limit = num_reads then real (unat num_obs)
      else if num_reads - num_obs < count_at_limit then real (unat num_obs)
      else
        (let limit_of_caring = 1 - (real (unat num_obs) / (real (unat num_obs) + 0.01));
             p_not_seeing =
               p_not_seeing_loop count_at_limit num_reads dup_level limit_of_caring 0 1
         in real (unat num_obs) / (1 - p_not_seeing)))"

subsection \<open>The abstract module\<close>

text \<open>\<^verbatim>\<open>tolower\<close> and \<^verbatim>\<open>toupper\<close> of the C locale, on one character.\<close>

definition tolower :: "char \<Rightarrow> char" where
  "tolower c = (let n = (of_char c :: nat) in if 65 \<le> n \<and> n \<le> 90 then char_of (n + 32) else c)"

definition toupper_char :: "char \<Rightarrow> char" where
  "toupper_char c =
     (let n = (of_char c :: nat) in if 97 \<le> n \<and> n \<le> 122 then char_of (n - 32) else c)"

text \<open>The static function \<^verbatim>\<open>toupper(const string &s)\<close> of Module.cpp.\<close>

definition toupper :: "string \<Rightarrow> string" where
  "toupper s = map toupper_char s"

text \<open>
  The members of class \<^verbatim>\<open>Module\<close> that its constructor initialises. A derived class is a
  record that extends this one.
\<close>

record Module =
  module_name' :: string
  placeholder :: string
  placeholder_name :: string
  placeholder_data :: string
  placeholder_cs :: string
  placeholder_ce :: string
  placeholder_grade :: string
  grade :: string
  summarized :: bool
  html_data :: string

text \<open>The constructor \<^verbatim>\<open>Module::Module(const string &_module_name)\<close>.\<close>

definition new_Module :: "string \<Rightarrow> Module" where
  "new_Module name =
     (let placeholder' = map tolower (filter (\<lambda>c. \<not> isspace c) name)
      in \<lparr> module_name' = name,
           placeholder = placeholder',
           placeholder_name = ''{{'' @ placeholder' @ ''name'' @ ''}}'',
           placeholder_data = ''{{'' @ placeholder' @ ''data'' @ ''}}'',
           placeholder_cs = ''{{'' @ placeholder' @ ''cs'' @ ''}}'',
           placeholder_ce = ''{{'' @ placeholder' @ ''ce'' @ ''}}'',
           placeholder_grade = ''{{pass'' @ placeholder' @ ''}}'',
           grade = ''pass'',
           summarized = False,
           html_data = '''' \<rparr>)"

text \<open>
  \<^verbatim>\<open>Module::write\<close> and \<^verbatim>\<open>Module::write_short_summary\<close>. The stream \<open>os\<close> is the text
  written so far, the result is the stream after the call. The virtual \<^verbatim>\<open>write_module\<close>
  of the derived class is a parameter: the text it writes.
\<close>

definition Module_write ::
  "('a Module_scheme \<Rightarrow> string) \<Rightarrow> 'a Module_scheme \<Rightarrow> string \<Rightarrow> error + string" where
  "Module_write write_module m os =
     (if \<not> summarized m then
        Inl (Runtime_error (''Attempted to write module before summarizing : '' @ module_name' m))
      else
        Inr (os @ ''>>'' @ module_name' m @ [CHR 0x09] @ grade m @ [CHR 0x0A]
                @ write_module m @ ''>>END_MODULE'' @ [CHR 0x0A]))"

definition write_short_summary :: "'a Module_scheme \<Rightarrow> string \<Rightarrow> string \<Rightarrow> error + string" where
  "write_short_summary m os filename =
     (if \<not> summarized m then
        Inl (Runtime_error (''Attempted to write module before summarizing : '' @ module_name' m))
      else
        Inr (os @ toupper (grade m) @ [CHR 0x09] @ module_name' m @ [CHR 0x09]
                @ filename @ [CHR 0x0A]))"

text \<open>
  \<^verbatim>\<open>Module::summarize\<close>. The three virtual functions it calls are parameters:
  \<^verbatim>\<open>summarize_module\<close> and \<^verbatim>\<open>make_grade\<close> change the object, \<^verbatim>\<open>make_html_data\<close>
  returns a string.
\<close>

definition summarize ::
  "('stats \<Rightarrow> 'a Module_scheme \<Rightarrow> 'a Module_scheme) \<Rightarrow> ('a Module_scheme \<Rightarrow> 'a Module_scheme)
   \<Rightarrow> ('a Module_scheme \<Rightarrow> string) \<Rightarrow> 'stats \<Rightarrow> 'a Module_scheme \<Rightarrow> 'a Module_scheme" where
  "summarize summarize_module make_grade make_html_data stats m =
     (let m1 = summarize_module stats m;
          m2 = make_grade m1;
          m3 = m2\<lparr>html_data := make_html_data m2\<rparr>
      in m3\<lparr>summarized := True\<rparr>)"

subsection \<open>Base groups\<close>

text \<open>
  \<^verbatim>\<open>BaseGroup(start, end)\<close>: a run of positions, identified by its first and its last
  position. The struct is declared in a header that is not among the sources; Module.cpp
  constructs it from the two positions and reads the members \<^verbatim>\<open>start\<close> and \<^verbatim>\<open>end\<close>.
\<close>

record BaseGroup =
  start :: nat
  end' :: nat

text \<open>
  The loop \<^verbatim>\<open>for (; starting_base < num_bases;)\<close> of \<^verbatim>\<open>make_base_groups\<close>, on the locals
  \<^verbatim>\<open>starting_base\<close> and \<^verbatim>\<open>interval\<close> and the output vector. The loop ends only if the
  interval is positive, so the function is partial: \<open>None\<close> stands for a loop that does
  not end. The \<^verbatim>\<open>size_t\<close> sums do not wrap for any \<open>num_bases\<close> below \<open>2 ^ 64 - 100\<close>.
\<close>

partial_function (option) base_groups_loop ::
  "nat \<Rightarrow> nat \<Rightarrow> nat \<Rightarrow> BaseGroup list \<Rightarrow> BaseGroup list option" where
  "base_groups_loop num_bases starting_base interval base_groups =
     (if starting_base < num_bases then
        (let end_base = starting_base + interval - 1;
             end_base = (if end_base \<ge> num_bases then num_bases else end_base);
             base_groups = base_groups @ [\<lparr>start = starting_base, end' = end_base\<rparr>];
             starting_base = starting_base + interval;
             interval = (if starting_base = 9 \<and> num_bases > 75 then 5 else interval);
             interval = (if starting_base = 49 \<and> num_bases > 200 then 10 else interval);
             interval = (if starting_base = 99 \<and> num_bases > 300 then 50 else interval);
             interval = (if starting_base = 499 \<and> num_bases > 1000 then 100 else interval);
             interval = (if starting_base = 1000 \<and> num_bases > 2000 then 500 else interval)
         in base_groups_loop num_bases starting_base interval base_groups)
      else Some base_groups)"

text \<open>\<^verbatim>\<open>make_base_groups\<close>: the result is the vector \<^verbatim>\<open>base_groups\<close> after the call.\<close>

definition make_base_groups :: "nat \<Rightarrow> BaseGroup list option" where
  "make_base_groups num_bases = base_groups_loop num_bases 0 1 []"

text \<open>\<^verbatim>\<open>make_default_base_groups\<close>: one group for each position.\<close>

definition make_default_base_groups :: "nat \<Rightarrow> BaseGroup list" where
  "make_default_base_groups num_bases = map (\<lambda>i. \<lparr>start = i, end' = i\<rparr>) [0..<num_bases]"

text \<open>
  The schedule of group widths as the specification words it, with no condition on the
  number of bases: the width of the group that starts at position \<open>s\<close>.
\<close>

definition spec_width :: "nat \<Rightarrow> nat" where
  "spec_width s =
     (if s < 9 then 1 else if s < 49 then 5 else if s < 99 then 10
      else if s < 499 then 50 else if s < 999 then 100 else 500)"

text \<open>
  The schedule of the source: the interval in force for a group that starts at position
  \<open>s\<close>. Each widening takes place only if the number of bases exceeds a threshold of its
  own; otherwise the previous interval stays.
\<close>

definition gated_width :: "nat \<Rightarrow> nat \<Rightarrow> nat" where
  "gated_width num_bases s =
     (if 499 \<le> s \<and> num_bases > 1000 then 100
      else if 99 \<le> s \<and> num_bases > 300 then 50
      else if 49 \<le> s \<and> num_bases > 200 then 10
      else if 9 \<le> s \<and> num_bases > 75 then 5
      else 1)"

text \<open>The groups that the loop appends when it is entered at position \<open>s\<close>.\<close>

function groups_from :: "nat \<Rightarrow> nat \<Rightarrow> BaseGroup list" where
  "groups_from num_bases s =
     (if s < num_bases then
        \<lparr>start = s,
         end' = (if s + gated_width num_bases s - 1 \<ge> num_bases then num_bases
                 else s + gated_width num_bases s - 1)\<rparr>
        # groups_from num_bases (s + gated_width num_bases s)
      else [])"
  by pat_completeness auto
termination
  by (relation "measure (\<lambda>(num_bases, s). num_bases - s)") (auto simp: gated_width_def)

declare groups_from.simps [simp del]

text \<open>
  The five conditional assignments to \<^verbatim>\<open>interval\<close> that end the loop body, as one function
  of the new starting position and the old interval.
\<close>

definition next_interval :: "nat \<Rightarrow> nat \<Rightarrow> nat \<Rightarrow> nat" where
  "next_interval num_bases starting_base interval =
     (let interval = (if starting_base = 9 \<and> num_bases > 75 then 5 else interval);
          interval = (if starting_base = 49 \<and> num_bases > 200 then 10 else interval);
          interval = (if starting_base = 99 \<and> num_bases > 300 then 50 else interval);
          interval = (if starting_base = 499 \<and> num_bases > 1000 then 100 else interval);
          interval = (if starting_base = 1000 \<and> num_bases > 2000 then 500 else interval)
      in interval)"

subsection \<open>The aggregate snapshot\<close>

text \<open>
  The members of \<^verbatim>\<open>FastqStats\<close> that the functions below read. The class is declared in a
  header that is not among the sources, so the static constants \<^verbatim>\<open>kNumBases\<close>,
  \<^verbatim>\<open>kNumQualityValues\<close>, \<^verbatim>\<open>kBitShiftQuality\<close> and \<^verbatim>\<open>kBitShiftKmer\<close> are fields like the others:
  parameters of the model. The counter arrays, whose sizes the header fixes, are given by
  their content at each index.
\<close>

record FastqStats =
  kNumBases :: nat
  kNumQualityValues :: nat
  kBitShiftQuality :: nat
  kBitShiftKmer :: nat
  max_read_length :: nat
  position_quality_count :: "nat \<Rightarrow> nat"
  long_position_quality_count :: "nat \<Rightarrow> nat"
  cumulative_read_length_freq :: "nat \<Rightarrow> nat"
  long_cumulative_read_length_freq :: "nat \<Rightarrow> nat"
  kmer_size :: nat
  kmer_count :: "nat \<Rightarrow> nat"
  pos_kmer_count :: "nat \<Rightarrow> nat"

subsection \<open>Per base sequence quality\<close>

record ModulePerBaseSequenceQuality = Module +
  base_lower_warn :: real
  base_lower_error :: real
  base_median_warn :: real
  base_median_error :: real
  do_group :: bool
  num_bases :: nat
  base_groups :: "BaseGroup list"
  num_groups :: nat
  group_mean :: "real list"
  group_ldecile :: "nat list"
  group_lquartile :: "nat list"
  group_median :: "nat list"
  group_uquartile :: "nat list"
  group_udecile :: "nat list"
  num_warn :: nat
  num_error :: nat

text \<open>
  The locals of \<^verbatim>\<open>ModulePerBaseSequenceQuality::summarize_module\<close> that are declared before
  the loop over the groups and so keep their values from one group to the next.
\<close>

record quality_locals =
  cur_ldecile :: nat
  cur_lquartile :: nat
  cur_median :: nat
  cur_uquartile :: nat
  cur_udecile :: nat
  cur_sum :: nat
  counts :: nat
  histogram :: "nat list"
  bases_in_group :: nat

text \<open>
  The value read into \<^verbatim>\<open>cur\<close> for position \<open>i\<close> and quality \<open>j\<close>, and the number of bases
  seen in position \<open>i\<close>: from the fixed-size arrays below \<^verbatim>\<open>kNumBases\<close>, from the vectors
  of the long reads from there on.
\<close>

definition position_quality :: "FastqStats \<Rightarrow> nat \<Rightarrow> nat \<Rightarrow> nat" where
  "position_quality stats i j =
     (if i < kNumBases stats then
        position_quality_count stats (push_bit (kBitShiftQuality stats) i OR j)
      else
        long_position_quality_count stats
          (push_bit (kBitShiftQuality stats) (i - kNumBases stats) OR j))"

definition bases_at :: "FastqStats \<Rightarrow> nat \<Rightarrow> nat" where
  "bases_at stats i =
     (if i < kNumBases stats then cumulative_read_length_freq stats i
      else long_cumulative_read_length_freq stats (i - kNumBases stats))"

text \<open>
  The body of the loop over the positions \<open>i\<close> of a group. It begins with the statements
  under the comment \<^verbatim>\<open>reset group values\<close>: they are inside the loop over the positions.
\<close>

definition add_position :: "FastqStats \<Rightarrow> nat \<Rightarrow> quality_locals \<Rightarrow> quality_locals" where
  "add_position stats i l =
     (let l = l\<lparr>bases_in_group := 0\<rparr>;
          l = l\<lparr>histogram := replicate 128 0\<rparr>;
          l = l\<lparr>histogram :=
                  fold (\<lambda>j h. h[j := h ! j + position_quality stats i j])
                       [0..<kNumQualityValues stats] (histogram l)\<rparr>
      in l\<lparr>bases_in_group := bases_in_group l + bases_at stats i\<rparr>)"

text \<open>
  The body of the second loop over the quality values \<open>j\<close>, which finds the quantiles. The
  thresholds are \<^verbatim>\<open>double\<close>s, the counts \<^verbatim>\<open>size_t\<close>s that the comparisons convert. The five
  tests read \<^verbatim>\<open>counts\<close> and \<^verbatim>\<open>cur\<close> only, and \<^verbatim>\<open>counts\<close> is assigned after them, so the
  assignments of the body are written as one update of the locals.
\<close>

definition quantile_step ::
  "real \<Rightarrow> real \<Rightarrow> real \<Rightarrow> real \<Rightarrow> real \<Rightarrow> nat \<Rightarrow> quality_locals \<Rightarrow> quality_locals" where
  "quantile_step ldecile_thresh lquartile_thresh median_thresh uquartile_thresh udecile_thresh j l =
     (let cur = histogram l ! j
      in l\<lparr>cur_ldecile :=
             (if real (counts l) < ldecile_thresh \<and> real (counts l + cur) \<ge> ldecile_thresh
              then j else cur_ldecile l),
           cur_lquartile :=
             (if real (counts l) < lquartile_thresh \<and> real (counts l + cur) \<ge> lquartile_thresh
              then j else cur_lquartile l),
           cur_median :=
             (if real (counts l) < median_thresh \<and> real (counts l + cur) \<ge> median_thresh
              then j else cur_median l),
           cur_uquartile :=
             (if real (counts l) < uquartile_thresh \<and> real (counts l + cur) \<ge> uquartile_thresh
              then j else cur_uquartile l),
           cur_udecile :=
             (if real (counts l) < udecile_thresh \<and> real (counts l + cur) \<ge> udecile_thresh
              then j else cur_udecile l),
           cur_sum := cur_sum l + cur * j,
           counts := counts l + cur\<rparr>)"

text \<open>
  One iteration of the loop over the groups, up to the mean: the loop over the positions of
  the group, the thresholds, and the loop that finds the quantiles.
\<close>

definition group_quantiles :: "FastqStats \<Rightarrow> BaseGroup \<Rightarrow> quality_locals \<Rightarrow> quality_locals" where
  "group_quantiles stats g l =
     (let l = fold (add_position stats) [start g..<Suc (end' g)] l;
          ldecile_thresh = 0.1 * real (bases_in_group l);
          lquartile_thresh = 0.25 * real (bases_in_group l);
          median_thresh = 0.5 * real (bases_in_group l);
          uquartile_thresh = 0.75 * real (bases_in_group l);
          udecile_thresh = 0.9 * real (bases_in_group l);
          l = l\<lparr>cur_sum := 0\<rparr>;
          l = l\<lparr>counts := 0\<rparr>
      in fold (quantile_step ldecile_thresh lquartile_thresh median_thresh uquartile_thresh
                 udecile_thresh)
              [0..<kNumQualityValues stats] l)"

text \<open>
  The whole iteration for the group of index \<open>grp\<close> (the source's \<^verbatim>\<open>group\<close>): the quantiles, then the mean and the
  assignments to the vectors of the module.
\<close>

definition summarize_group ::
  "FastqStats \<Rightarrow> nat \<Rightarrow> quality_locals \<times> 'a ModulePerBaseSequenceQuality_scheme
   \<Rightarrow> quality_locals \<times> 'a ModulePerBaseSequenceQuality_scheme" where
  "summarize_group stats grp lm =
     (let l = group_quantiles stats (base_groups (snd lm) ! grp) (fst lm);
          m = snd lm;
          cur_mean = real (cur_sum l) / real (bases_in_group l)
      in (l, m\<lparr>group_mean := (group_mean m)[grp := cur_mean],
                group_ldecile := (group_ldecile m)[grp := cur_ldecile l],
                group_lquartile := (group_lquartile m)[grp := cur_lquartile l],
                group_median := (group_median m)[grp := cur_median l],
                group_uquartile := (group_uquartile m)[grp := cur_uquartile l],
                group_udecile := (group_udecile m)[grp := cur_udecile l]\<rparr>))"

text \<open>
  The locals as \<^verbatim>\<open>summarize_module\<close> declares them before the loop over the groups: the
  quantiles are 0, the histogram has 128 zeros. (\<^verbatim>\<open>cur_sum\<close> and \<^verbatim>\<open>counts\<close> are declared
  without a value and assigned in each group before they are read.)
\<close>

definition initial_quality_locals :: quality_locals where
  "initial_quality_locals =
     \<lparr>cur_ldecile = 0, cur_lquartile = 0, cur_median = 0, cur_uquartile = 0,
      cur_udecile = 0, cur_sum = 0, counts = 0, histogram = replicate 128 0,
      bases_in_group = 0\<rparr>"

text \<open>
  \<^verbatim>\<open>ModulePerBaseSequenceQuality::summarize_module\<close>: the quantile locals start at 0,
  the histogram has 128 zeros, the module gets the groups and vectors of zeros, one entry for
  each group, and then the loop over the groups runs. The result is \<open>None\<close> if the loop of
  \<^verbatim>\<open>make_base_groups\<close> does not end.
\<close>

definition quality_summarize_module ::
  "FastqStats \<Rightarrow> 'a ModulePerBaseSequenceQuality_scheme
   \<Rightarrow> 'a ModulePerBaseSequenceQuality_scheme option" where
  "quality_summarize_module stats m =
     (let l = initial_quality_locals
      in case (if do_group m then make_base_groups (max_read_length stats)
               else Some (make_default_base_groups (max_read_length stats))) of
           None \<Rightarrow> None
         | Some groups \<Rightarrow>
             Some (snd (fold (summarize_group stats) [0..<length groups]
                         (l, m\<lparr>num_bases := max_read_length stats,
                                base_groups := groups,
                                num_groups := length groups,
                                group_mean := replicate (length groups) 0,
                                group_ldecile := replicate (length groups) 0,
                                group_lquartile := replicate (length groups) 0,
                                group_median := replicate (length groups) 0,
                                group_uquartile := replicate (length groups) 0,
                                group_udecile := replicate (length groups) 0\<rparr>))))"

text \<open>
  The snapshot invariant that relates the two counters the module reads: at every position,
  the counts of the quality values add up to the number of bases seen at that position.
  The local histogram has 128 entries, so there are at most 128 quality values.
\<close>

definition consistent_quality_counts :: "FastqStats \<Rightarrow> bool" where
  "consistent_quality_counts stats =
     (kNumQualityValues stats \<le> 128
      \<and> (\<forall>i. (\<Sum>j<kNumQualityValues stats. position_quality stats i j) = bases_at stats i))"

text \<open>
  Three invariants of the loop over the groups, for the proofs: the local histogram has its
  128 entries and its counts add up to \<^verbatim>\<open>bases_in_group\<close>; the five quantile locals are in
  order; the five vectors of the module have one entry for each group, in order at every
  group.
\<close>

definition hist_ok :: "FastqStats \<Rightarrow> quality_locals \<Rightarrow> bool" where
  "hist_ok stats l = (length (histogram l) = 128 \<and> (\<Sum>j<kNumQualityValues stats. histogram l ! j) = bases_in_group l)"

definition mono5 :: "quality_locals \<Rightarrow> bool" where
  "mono5 l = (cur_ldecile l \<le> cur_lquartile l \<and> cur_lquartile l \<le> cur_median l \<and> cur_median l \<le> cur_uquartile l \<and> cur_uquartile l \<le> cur_udecile l)"

definition mono_groups :: "nat \<Rightarrow> 'a ModulePerBaseSequenceQuality_scheme \<Rightarrow> bool" where
  "mono_groups n m =
     (num_groups m = n \<and> length (group_ldecile m) = n \<and> length (group_lquartile m) = n
      \<and> length (group_median m) = n \<and> length (group_uquartile m) = n
      \<and> length (group_udecile m) = n
      \<and> (\<forall>g<n. group_ldecile m ! g \<le> group_lquartile m ! g
               \<and> group_lquartile m ! g \<le> group_median m ! g
               \<and> group_median m ! g \<le> group_uquartile m ! g
               \<and> group_uquartile m ! g \<le> group_udecile m ! g))"

text \<open>
  A snapshot for the examples: ten reads of 80 bases each. Every base has quality 40, but at
  position 13 all ten bases have quality 2. The constants are those of a k-mer size of 7,
  128 quality values and fixed-size arrays for the first 500 positions.
\<close>

definition example_stats :: FastqStats where
  "example_stats =
     \<lparr> kNumBases = 500, kNumQualityValues = 128, kBitShiftQuality = 7, kBitShiftKmer = 14,
       max_read_length = 80,
       position_quality_count =
         (\<lambda>idx. if idx div 128 < 80 \<and> idx mod 128 = (if idx div 128 = 13 then 2 else 40)
                then 10 else 0),
       long_position_quality_count = (\<lambda>idx. 0),
       cumulative_read_length_freq = (\<lambda>i. if i < 80 then 10 else 0),
       long_cumulative_read_length_freq = (\<lambda>i. 0),
       kmer_size = 7,
       kmer_count = (\<lambda>idx. 0),
       pos_kmer_count = (\<lambda>i. 0) \<rparr>"

text \<open>
  A second snapshot for the examples, for reads of 8 bases and k-mers of size 7 (so the
  k-mers end at the positions 6 and 7): the k-mer 5 is counted three times at position 6
  and once at position 7, the k-mer 9 twice at position 7.
\<close>

definition example_kmer_stats :: FastqStats where
  "example_kmer_stats =
     \<lparr> kNumBases = 500, kNumQualityValues = 128, kBitShiftQuality = 7, kBitShiftKmer = 14,
       max_read_length = 8,
       position_quality_count = (\<lambda>idx. 0),
       long_position_quality_count = (\<lambda>idx. 0),
       cumulative_read_length_freq = (\<lambda>i. 0),
       long_cumulative_read_length_freq = (\<lambda>i. 0),
       kmer_size = 7,
       kmer_count =
         (\<lambda>idx. if idx div 16384 = 6 \<and> idx mod 16384 = 5 then 3
                else if idx div 16384 = 7 \<and> idx mod 16384 = 5 then 1
                else if idx div 16384 = 7 \<and> idx mod 16384 = 9 then 2 else 0),
       pos_kmer_count = (\<lambda>i. if i = 6 then 3 else if i = 7 then 3 else 0) \<rparr>"

subsection \<open>Kmer content\<close>

record ModuleKmerContent = Module +
  grade_warn :: real
  grade_error :: real
  kmer_size :: nat
  num_kmers :: nat
  num_kmer_bases :: nat
  pos_kmer_count :: "nat \<Rightarrow> nat"
  obs_exp_max :: "real list"
  where_obs_exp_is_max :: "nat list"
  total_kmer_counts :: "nat list"
  num_seen_kmers :: nat
  kmers_to_report :: "(nat \<times> real) list"

text \<open>
  The first position of the loops over the positions, \<^verbatim>\<open>kmer_size - 1\<close> in \<^verbatim>\<open>size_t\<close>: for a
  k-mer size of 0 it wraps around.
\<close>

definition first_kmer_position :: "nat \<Rightarrow> nat" where
  "first_kmer_position k = (if k = 0 then 2 ^ 64 - 1 else k - 1)"

text \<open>The count the source reads into \<^verbatim>\<open>observed_count\<close> for position \<open>i\<close> and a k-mer.\<close>

definition observed_kmer_count :: "FastqStats \<Rightarrow> nat \<Rightarrow> nat \<Rightarrow> nat" where
  "observed_kmer_count stats i kmer =
     FastqStats.kmer_count stats (push_bit (kBitShiftKmer stats) i OR kmer)"

text \<open>
  The body of the first loop over the k-mers of \<^verbatim>\<open>ModuleKmerContent::summarize_module\<close>: the
  total count of the k-mer over the positions, and one more seen k-mer if it is positive.
\<close>

definition count_kmer ::
  "FastqStats \<Rightarrow> nat \<Rightarrow> 'a ModuleKmerContent_scheme \<Rightarrow> 'a ModuleKmerContent_scheme" where
  "count_kmer stats kmer m =
     (let m = fold (\<lambda>i m.
                 (let observed_count = observed_kmer_count stats i kmer
                  in m\<lparr>total_kmer_counts :=
                         (total_kmer_counts m)[kmer := total_kmer_counts m ! kmer + observed_count]\<rparr>))
               [first_kmer_position (kmer_size m)..<num_kmer_bases m] m
      in if total_kmer_counts m ! kmer > 0 then m\<lparr>num_seen_kmers := num_seen_kmers m + 1\<rparr>
         else m)"

text \<open>
  The second loop over the k-mers. Its inner loop over the positions \<open>i\<close> has the body
  \<open>rate_position\<close>: the ratio of the observed to the expected count, and the new maximum
  and the place where it is reached. The quotients are the exact ones.
\<close>

definition rate_position ::
  "FastqStats \<Rightarrow> real \<Rightarrow> nat \<Rightarrow> nat \<Rightarrow> 'a ModuleKmerContent_scheme
   \<Rightarrow> 'a ModuleKmerContent_scheme" where
  "rate_position stats dividend kmer i m =
     (let observed_count = observed_kmer_count stats i kmer;
          expected_count = real (pos_kmer_count m i) / dividend;
          obs_exp_ratio = real observed_count / expected_count
      in if i = 0 \<or> obs_exp_ratio > obs_exp_max m ! kmer then
           m\<lparr>obs_exp_max := (obs_exp_max m)[kmer := obs_exp_ratio],
             where_obs_exp_is_max := (where_obs_exp_is_max m)[kmer := i]\<rparr>
         else m)"

text \<open>
  The body of the loop over the k-mers: the loop over the positions, and the report of the
  k-mer if its maximum exceeds 5.
\<close>

definition rate_kmer ::
  "FastqStats \<Rightarrow> real \<Rightarrow> nat \<Rightarrow> 'a ModuleKmerContent_scheme \<Rightarrow> 'a ModuleKmerContent_scheme" where
  "rate_kmer stats dividend kmer m =
     (let m = fold (rate_position stats dividend kmer)
                   [first_kmer_position (kmer_size m)..<num_kmer_bases m] m
      in if obs_exp_max m ! kmer > 5 then
           m\<lparr>kmers_to_report := kmers_to_report m @ [(kmer, obs_exp_max m ! kmer)]\<rparr>
         else m)"

text \<open>
  \<^verbatim>\<open>ModuleKmerContent::summarize_module\<close>. \<^verbatim>\<open>1 << (2 * kmer_size)\<close> is \<open>4 ^ kmer_size\<close> (for
  the k-mer sizes below 16, which an \<^verbatim>\<open>int\<close> can shift). The final \<^verbatim>\<open>sort\<close> orders the
  reported k-mers by descending ratio; the standard library does not fix the order of equal
  ratios, here it is that of a stable sort.
\<close>

definition kmer_summarize_module ::
  "FastqStats \<Rightarrow> 'a ModuleKmerContent_scheme \<Rightarrow> 'a ModuleKmerContent_scheme" where
  "kmer_summarize_module stats m =
     (let m = m\<lparr>kmer_size := FastqStats.kmer_size stats,
                 num_kmers := 2 ^ (2 * FastqStats.kmer_size stats),
                 num_kmer_bases := (if max_read_length stats < kNumBases stats
                                    then max_read_length stats else kNumBases stats),
                 pos_kmer_count := FastqStats.pos_kmer_count stats,
                 obs_exp_max := replicate (2 ^ (2 * FastqStats.kmer_size stats)) 0,
                 where_obs_exp_is_max := replicate (2 ^ (2 * FastqStats.kmer_size stats)) 0,
                 total_kmer_counts := replicate (2 ^ (2 * FastqStats.kmer_size stats)) 0,
                 num_seen_kmers := 0\<rparr>;
          m = fold (count_kmer stats) [0..<num_kmers m] m;
          dividend = real (num_seen_kmers m);
          m = fold (rate_kmer stats dividend) [0..<num_kmers m] m
      in m\<lparr>kmers_to_report := rev (sort_key snd (kmers_to_report m))\<rparr>)"

text \<open>
  The positions the loops visit, and the total count of a k-mer over them, as the claims
  about the module speak of them.
\<close>

definition kmer_positions :: "FastqStats \<Rightarrow> nat set" where
  "kmer_positions stats =
     {first_kmer_position (FastqStats.kmer_size stats)
        ..< (if max_read_length stats < kNumBases stats then max_read_length stats
             else kNumBases stats)}"

definition kmer_total :: "FastqStats \<Rightarrow> nat \<Rightarrow> nat" where
  "kmer_total stats kmer = (\<Sum>i \<in> kmer_positions stats. observed_kmer_count stats i kmer)"

text \<open>
  The ratio of observed to expected count that the source forms at position \<open>i\<close> for a
  k-mer: the expected count is the number of k-mers counted at the position, divided by the
  number of k-mers seen.
\<close>

definition kmer_ratio :: "FastqStats \<Rightarrow> nat \<Rightarrow> nat \<Rightarrow> nat \<Rightarrow> real" where
  "kmer_ratio stats num_seen kmer i =
     real (observed_kmer_count stats i kmer)
       / (real (FastqStats.pos_kmer_count stats i) / real num_seen)"

text \<open>
  What one position does to the maximum of a k-mer, \<open>r\<close> being the ratio at each position:
  the source takes the new ratio at position 0, and wherever it exceeds the maximum so far.
\<close>

definition max_ratio_step :: "(nat \<Rightarrow> real) \<Rightarrow> nat \<Rightarrow> real \<Rightarrow> real" where
  "max_ratio_step r i v = (if i = 0 \<or> r i > v then r i else v)"


text \<open>
  The ratio as the specification words it: the expected count is the total count of the
  k-mer over all positions, divided by the number of k-mers seen.
\<close>

definition claimed_kmer_ratio :: "FastqStats \<Rightarrow> nat \<Rightarrow> nat \<Rightarrow> nat \<Rightarrow> real" where
  "claimed_kmer_ratio stats num_seen kmer i =
     real (observed_kmer_count stats i kmer) / (real (kmer_total stats kmer) / real num_seen)"

text \<open>
  A module for the examples, as the constructor \<^verbatim>\<open>ModuleKmerContent(config)\<close> leaves it: the
  name, the grade \<open>pass\<close>, the limits 2 and 5 for warning and error, and nothing summarized.
\<close>

definition example_kmer_module :: ModuleKmerContent where
  "example_kmer_module =
     Module.extend (new_Module ''Kmer Content'')
       (ModuleKmerContent.fields 2 5 0 0 0 (\<lambda>i. 0) [] [] [] 0 [])"

subsection \<open>Per sequence GC content: the deviation from a normal distribution\<close>

text \<open>
  The locals of \<^verbatim>\<open>sum_deviation_from_normal\<close> in the block that the source marks as copied
  from FastQC. The \<^verbatim>\<open>double\<close>s are real numbers, and their operations the exact ones.
\<close>

record deviation_locals =
  total_count :: real
  first_mode :: nat
  mode_count :: real
  mode :: real
  mode_duplicates :: nat
  fell_off_top :: bool
  fell_off_bottom :: bool
  stdev :: real

definition num_gc_bins :: nat where
  "num_gc_bins = 101"

text \<open>The body of the first loop: the sum of the counts, and the first bin of maximal count.\<close>

definition count_and_mode_step :: "(nat \<Rightarrow> real) \<Rightarrow> nat \<Rightarrow> deviation_locals \<Rightarrow> deviation_locals" where
  "count_and_mode_step gc_count i l =
     (let l = l\<lparr>total_count := total_count l + gc_count i\<rparr>
      in if gc_count i > mode_count l then l\<lparr>mode_count := gc_count i, first_mode := i\<rparr>
         else l)"

text \<open>
  The two loops that average over the bins next to the mode, over the bins \<open>is\<close> in the
  order the loop visits them. The loop is left at the first bin that is not above the
  threshold; the second component is the flag \<^verbatim>\<open>fell_off_top\<close> (or \<^verbatim>\<open>fell_off_bottom\<close>),
  which stays true exactly if the loop is not left that way.
\<close>

fun adjacent_loop ::
  "(nat \<Rightarrow> real) \<Rightarrow> nat list \<Rightarrow> deviation_locals \<Rightarrow> deviation_locals \<times> bool" where
  "adjacent_loop gc_count [] l = (l, True)"
| "adjacent_loop gc_count (i # is) l =
     (if gc_count i > gc_count (first_mode l) - (gc_count (first_mode l) / 10) then
        adjacent_loop gc_count is
          (l\<lparr>mode := mode l + real i, mode_duplicates := mode_duplicates l + 1\<rparr>)
      else (l, False))"

text \<open>
  The block copied from FastQC, up to its end: the locals after it. The second of the two
  loops counts an \<^verbatim>\<open>int\<close> down from \<^verbatim>\<open>first_mode - 1\<close> to 0, so it visits no bin if the
  mode is the bin 0.
\<close>

definition copied_from_fastqc :: "(nat \<Rightarrow> real) \<Rightarrow> deviation_locals" where
  "copied_from_fastqc gc_count =
     (let l = \<lparr>total_count = 0, first_mode = 0, mode_count = 0, mode = 0, mode_duplicates = 0,
                fell_off_top = True, fell_off_bottom = True, stdev = 0\<rparr>;
          l = fold (count_and_mode_step gc_count) [0..<num_gc_bins] l;
          (l, top) = adjacent_loop gc_count [first_mode l..<num_gc_bins] l;
          l = l\<lparr>fell_off_top := top\<rparr>;
          (l, bottom) = adjacent_loop gc_count (rev [0..<first_mode l]) l;
          l = l\<lparr>fell_off_bottom := bottom\<rparr>;
          l = (if fell_off_bottom l \<or> fell_off_top l then l\<lparr>mode := real (first_mode l)\<rparr>
               else l\<lparr>mode := mode l / real (mode_duplicates l)\<rparr>);
          l = l\<lparr>stdev := 0\<rparr>;
          l = fold (\<lambda>i l. l\<lparr>stdev := stdev l + (real i - mode l) * (real i - mode l) * gc_count i\<rparr>)
                   [0..<num_gc_bins] l;
          l = l\<lparr>stdev := stdev l / (total_count l - 1)\<rparr>
      in l\<lparr>stdev := sqrt (stdev l)\<rparr>)"

text \<open>
  \<^verbatim>\<open>sum_deviation_from_normal\<close>: the returned deviation and the array \<^verbatim>\<open>theoretical\<close> that
  it fills.
\<close>

definition sum_deviation_from_normal :: "(nat \<Rightarrow> real) \<Rightarrow> real \<times> (nat \<Rightarrow> real)" where
  "sum_deviation_from_normal gc_count =
     (let l = copied_from_fastqc gc_count;
          theoretical = (\<lambda>i. if i \<le> 100
                               then exp (- ((real i - mode l) * (real i - mode l))
                                           / (2 * stdev l * stdev l))
                               else 0);
          theoretical_sum = fold (\<lambda>i s. s + theoretical i) [0..<101] 0;
          theoretical = (\<lambda>i. if i \<le> 100 then theoretical i * total_count l / theoretical_sum
                               else theoretical i);
          ans = fold (\<lambda>i a. a + \<bar>gc_count i - theoretical i\<bar>) [0..<101] 0
      in (100 * ans / total_count l, theoretical))"

text \<open>
  The two standard deviations of the bin index around a centre \<open>c\<close>, weighted by the counts
  of the bins: that of a population, as the specification words it, and that of a sample.
\<close>

definition weighted_square_deviation :: "(nat \<Rightarrow> real) \<Rightarrow> real \<Rightarrow> real" where
  "weighted_square_deviation gc_count c = (\<Sum>i<num_gc_bins. (real i - c)\<^sup>2 * gc_count i)"

definition population_stdev :: "(nat \<Rightarrow> real) \<Rightarrow> real \<Rightarrow> real" where
  "population_stdev gc_count c =
     sqrt (weighted_square_deviation gc_count c / (\<Sum>i<num_gc_bins. gc_count i))"

definition sample_stdev :: "(nat \<Rightarrow> real) \<Rightarrow> real \<Rightarrow> real" where
  "sample_stdev gc_count c =
     sqrt (weighted_square_deviation gc_count c / ((\<Sum>i<num_gc_bins. gc_count i) - 1))"

text \<open>An example: four reads with 50 percent of G and C, one with 46 percent.\<close>

definition example_gc_count :: "nat \<Rightarrow> real" where
  "example_gc_count = (\<lambda>i. if i = 50 then 4 else if i = 46 then 1 else 0)"

section \<open>Verification\<close>

subsection \<open>Substring search\<close>

lemma string_find_sublist: "string_find s t \<noteq> None \<longleftrightarrow> sublist t s"
  by (induction s) (auto simp: sublist_Cons_right)

subsection \<open>Contaminant matching\<close>

lemma matching_loop_no_hit:
  assumes "\<forall>v \<in> set cs. \<not> sublist (snd v) seq \<and> \<not> sublist seq (snd v)"
  shows "matching_loop cs seq best ret = matching_loop [] seq best ret"
  using assms by (induction cs) (auto simp: string_find_sublist simp del: not_None_eq)

text \<open>
  C6. The contaminant matching of candidate \<open>ACGTACGT\<close> against \<open>[(X, ACGT)]\<close> is
  \<open>X\<close>, that of candidate \<open>ACGT\<close> against \<open>[(Y, ACGTACGT)]\<close> is \<open>Y\<close>, and for a
  candidate that contains no contaminant of the list and is contained in none of them the
  result is the sentinel \<open>No Hit\<close>.
\<close>

theorem get_matching_contaminant_examples:
  "get_matching_contaminant [(''X'', ''ACGT'')] ''ACGTACGT'' = ''X''
   \<and> get_matching_contaminant [(''Y'', ''ACGTACGT'')] ''ACGT'' = ''Y''
   \<and> (\<forall>contaminants seq.
        (\<forall>v \<in> set contaminants. \<not> sublist (snd v) seq \<and> \<not> sublist seq (snd v))
        \<longrightarrow> get_matching_contaminant contaminants seq = ''No Hit'')"
proof (intro conjI allI impI)
  show "get_matching_contaminant [(''X'', ''ACGT'')] ''ACGTACGT'' = ''X''"
    by (simp add: get_matching_contaminant_def)
  show "get_matching_contaminant [(''Y'', ''ACGTACGT'')] ''ACGT'' = ''Y''"
    by (simp add: get_matching_contaminant_def)
next
  fix contaminants :: "(string \<times> string) list" and seq :: string
  assume "\<forall>v \<in> set contaminants. \<not> sublist (snd v) seq \<and> \<not> sublist seq (snd v)"
  then show "get_matching_contaminant contaminants seq = ''No Hit''"
    by (simp add: get_matching_contaminant_def matching_loop_no_hit)
qed

theorem get_matching_contaminant_examples_witness:
  "get_matching_contaminant [(''X'', ''ACGT''), (''Z'', ''GGGGGGGG'')] ''TTTTT'' = ''No Hit''"
proof -
  have "\<forall>v \<in> set [(''X'', ''ACGT''), (''Z'', ''GGGGGGGG'')].
          \<not> sublist (snd v) ''TTTTT'' \<and> \<not> sublist ''TTTTT'' (snd v)"
    by (simp add: sublist_Cons_right)
  with get_matching_contaminant_examples show ?thesis by blast
qed

subsection \<open>Reading the contaminant file\<close>

lemma read_contaminants_line_seq:
  "set (read_contaminants_line cs line) \<subseteq> set cs \<union> {p. snd p = ''''}"
  by (auto simp: read_contaminants_line_def Let_def)

text \<open>
  C5 (the claim: every line that is no comment and has at least two tokens appends the pair
  of the joined name tokens and the last token of the line). On the one-line file
  \<open>Adapter X ACGT\<close> the source appends the name with the empty string: the pushed variable
  \<^verbatim>\<open>contaminant_seq\<close> is the one initialised to \<^verbatim>\<open>""\<close>, not \<^verbatim>\<open>contaminent_seq\<close>, which
  holds the last token.
\<close>

theorem read_contaminants_file_drops_sequence:
  "read_contaminants_file f (Some (''Adapter X ACGT'' @ [CHR 0x0A])) []
     = Inr [(''Adapter X '', '''')]"
  by (simp add: read_contaminants_file_def read_contaminants_line_def isspace_def)

subsection \<open>Duplication: the extrapolation of counts\<close>

text \<open>
  C7. When \<^verbatim>\<open>count_at_limit\<close> (here \<open>limit\<close>) equals \<^verbatim>\<open>num_reads\<close> (here \<open>reads\<close>),
  \<^verbatim>\<open>get_corrected_count\<close> returns the raw observed count \<open>num_obs\<close> (converted to the result
  type), with no correction; and so it does whenever \<open>reads - num_obs < limit\<close>, the
  difference being the one the source computes in \<^verbatim>\<open>size_t\<close>.
\<close>

theorem get_corrected_count_no_correction:
  "(limit = reads
      \<longrightarrow> get_corrected_count limit reads dup_level num_obs = real (unat num_obs))
   \<and> (reads - num_obs < limit
      \<longrightarrow> get_corrected_count limit reads dup_level num_obs = real (unat num_obs))"
  by (simp add: get_corrected_count_def)

theorem get_corrected_count_no_correction_witness:
  "get_corrected_count 100000 100000 3 7 = 7
   \<and> get_corrected_count 100000 100050 3 60 = 60"
proof -
  have "(100050 :: size_t) - 60 < 100000" by simp
  with get_corrected_count_no_correction [of 100000 100000 3 7]
       get_corrected_count_no_correction [of 100000 100050 3 60]
  show ?thesis by simp
qed

subsection \<open>The lifecycle of a module\<close>

text \<open>
  C9. A module that has not been summarized (as every module is when constructed) makes
  \<^verbatim>\<open>write\<close> and \<^verbatim>\<open>write_short_summary\<close> raise the error
  \<open>Attempted to write module before summarizing\<close>; after \<^verbatim>\<open>summarize\<close> has run, whatever
  the module's virtual functions are, neither call raises an error.
\<close>

theorem write_needs_summarize:
  "\<not> summarized (new_Module name)
   \<and> (\<not> summarized m \<longrightarrow>
        Module_write write_module m os
          = Inl (Runtime_error (''Attempted to write module before summarizing : '' @ module_name' m))
        \<and> write_short_summary m os filename
          = Inl (Runtime_error (''Attempted to write module before summarizing : '' @ module_name' m)))
   \<and> (\<forall>e. Module_write write_module (summarize summarize_module make_grade make_html_data stats m) os
            \<noteq> Inl e)
   \<and> (\<forall>e. write_short_summary (summarize summarize_module make_grade make_html_data stats m)
             os filename \<noteq> Inl e)"
  by (simp add: new_Module_def Module_write_def write_short_summary_def summarize_def Let_def)

theorem write_needs_summarize_witness:
  "Module_write (\<lambda>m. ''#Measure'') (new_Module ''Basic Statistics'') '''' =
     Inl (Runtime_error ''Attempted to write module before summarizing : Basic Statistics'')
   \<and> write_short_summary (new_Module ''Basic Statistics'') '''' ''reads.fq'' =
     Inl (Runtime_error ''Attempted to write module before summarizing : Basic Statistics'')
   \<and> write_short_summary
       (summarize (\<lambda>stats m. m) (\<lambda>m. m) (\<lambda>m. '''') () (new_Module ''Basic Statistics''))
       '''' ''reads.fq''
     = Inr (''PASS'' @ [CHR 0x09] @ ''Basic Statistics'' @ [CHR 0x09] @ ''reads.fq'' @ [CHR 0x0A])"
proof -
  note inst = write_needs_summarize
    [where name = "''Basic Statistics''" and m = "new_Module ''Basic Statistics''"
       and write_module = "\<lambda>m. ''#Measure''" and os = "''''" and filename = "''reads.fq''"
       and summarize_module = "\<lambda>(stats :: unit) m. m" and make_grade = "\<lambda>m. m"
       and make_html_data = "\<lambda>m. ''''" and stats = "()"]
  have name: "module_name' (new_Module ''Basic Statistics'') = ''Basic Statistics''"
    by (simp add: new_Module_def)
  from inst have unsummarized: "\<not> summarized (new_Module ''Basic Statistics'')"
    by (rule conjunct1)
  from inst have "\<not> summarized (new_Module ''Basic Statistics'') \<longrightarrow>
      Module_write (\<lambda>m. ''#Measure'') (new_Module ''Basic Statistics'') '''' =
          Inl (Runtime_error (''Attempted to write module before summarizing : ''
                               @ module_name' (new_Module ''Basic Statistics'')))
        \<and> write_short_summary (new_Module ''Basic Statistics'') '''' ''reads.fq'' =
          Inl (Runtime_error (''Attempted to write module before summarizing : ''
                               @ module_name' (new_Module ''Basic Statistics'')))"
    by (rule conjunct2 [THEN conjunct1])
  with unsummarized name
  have raised: "Module_write (\<lambda>m. ''#Measure'') (new_Module ''Basic Statistics'') '''' =
          Inl (Runtime_error ''Attempted to write module before summarizing : Basic Statistics'')
        \<and> write_short_summary (new_Module ''Basic Statistics'') '''' ''reads.fq'' =
          Inl (Runtime_error ''Attempted to write module before summarizing : Basic Statistics'')"
    by simp
  have "write_short_summary
       (summarize (\<lambda>stats m. m) (\<lambda>m. m) (\<lambda>m. '''') () (new_Module ''Basic Statistics''))
       '''' ''reads.fq''
     = Inr (''PASS'' @ [CHR 0x09] @ ''Basic Statistics'' @ [CHR 0x09] @ ''reads.fq'' @ [CHR 0x0A])"
    by code_simp
  with raised show ?thesis by simp
qed

subsection \<open>Base groups\<close>

lemma gated_width_pos: "0 < gated_width nb s"
  by (simp add: gated_width_def)

lemma step_apart: "(d::nat) dvd a + 1 \<Longrightarrow> d dvd b + 1 \<Longrightarrow> a < b \<Longrightarrow> a + d \<le> b"
proof -
  assume a: "d dvd a + 1" "d dvd b + 1" "a < b"
  then have "d dvd (b + 1) - (a + 1)" using dvd_diff_nat by blast
  moreover have "(b + 1) - (a + 1) > 0" using a by simp
  ultimately have "d \<le> (b + 1) - (a + 1)" using dvd_imp_le by blast
  then show ?thesis using a by simp
qed

lemma interval_step:
  assumes "iv = gated_width nb sb" and "iv dvd sb + 1"
  shows "next_interval nb (sb + iv) iv = gated_width nb (sb + iv) \<and> gated_width nb (sb + iv) dvd sb + iv + 1"
proof -
  have dv: "iv dvd Suc (sb + iv)" using assms(2) dvd_add[of iv "Suc sb" iv] by simp
  consider (a) "sb < 8" | (a') "sb = 8" | (b) "9 \<le> sb" "sb < 49" | (c) "49 \<le> sb" "sb < 99" | (d) "99 \<le> sb" "sb < 499" | (e) "499 \<le> sb" by linarith
  then show ?thesis
  proof cases
    case a
    with assms have "iv = 1" by (simp add: gated_width_def)
    with a show ?thesis by (simp add: next_interval_def gated_width_def)
  next
    case a'
    with assms have "iv = 1" by (simp add: gated_width_def)
    with a' show ?thesis by (simp add: next_interval_def gated_width_def)
  next
    case b
    show ?thesis
    proof (cases "75 < nb")
      case True
      with b assms have iv: "iv = 5" by (simp add: gated_width_def)
      have "sb + 5 \<le> 49" using step_apart[of 5 sb 49] assms(2) b iv by simp
      with b iv assms(2) True show ?thesis by (auto simp add: next_interval_def gated_width_def) (presburger+)?
    next
      case False
      with b assms have iv: "iv = 1" by (simp add: gated_width_def)
      with b False show ?thesis by (simp add: next_interval_def gated_width_def)
    qed
  next
    case c
    show ?thesis
    proof (cases "200 < nb")
      case True
      with c assms have iv: "iv = 10" by (simp add: gated_width_def)
      have "sb + 10 \<le> 99" using step_apart[of 10 sb 99] assms(2) c iv by simp
      with c iv assms(2) True show ?thesis by (auto simp add: next_interval_def gated_width_def) (presburger+)?
    next
      case False
      with c assms(1) have iv: "iv = gated_width nb (sb + iv)" by (simp add: gated_width_def)
      from False c have "next_interval nb (sb + iv) iv = iv"  by (simp add: next_interval_def)
      with iv dv show ?thesis by simp
    qed
  next
    case d
    show ?thesis
    proof (cases "300 < nb")
      case True
      with d assms have iv: "iv = 50" by (simp add: gated_width_def)
      have "sb + 50 \<le> 499" using step_apart[of 50 sb 499] assms(2) d iv by simp
      with d iv assms(2) True show ?thesis by (auto simp add: next_interval_def gated_width_def) (presburger+)?
    next
      case False
      with d assms(1) have iv: "iv = gated_width nb (sb + iv)" by (simp add: gated_width_def)
      from False d have "next_interval nb (sb + iv) iv = iv"  by (simp add: next_interval_def)
      with iv dv show ?thesis by simp
    qed
  next
    case e
    show ?thesis
    proof (cases "1000 < nb")
      case True
      with e assms have iv: "iv = 100" by (simp add: gated_width_def)
      have "sb + 100 \<noteq> 1000" using assms(2) iv by presburger
      with e iv assms(2) True show ?thesis by (auto simp add: next_interval_def gated_width_def) (presburger+)?
    next
      case False
      with e assms(1) have iv: "iv = gated_width nb (sb + iv)" by (simp add: gated_width_def)
      from False e have "next_interval nb (sb + iv) iv = iv"  by (simp add: next_interval_def)
      with iv dv show ?thesis by simp
    qed
  qed
qed

lemma loop_eq:
  assumes "iv = gated_width nb sb" and "iv dvd sb + 1"
  shows "base_groups_loop nb sb iv acc = Some (acc @ groups_from nb sb)"
  using assms
proof (induction "nb - sb" arbitrary: sb iv acc rule: less_induct)
  case less
  show ?case
  proof (cases "sb < nb")
    case False
    then show ?thesis by (subst base_groups_loop.simps, subst groups_from.simps) simp
  next
    case True
    have pos: "0 < iv" using less.prems(1) by (simp add: gated_width_def)
    have st: "next_interval nb (sb + iv) iv = gated_width nb (sb + iv)" "gated_width nb (sb + iv) dvd sb + iv + 1"
      using interval_step[OF less.prems] by simp_all
    have "base_groups_loop nb (sb + iv) (next_interval nb (sb + iv) iv) (acc @ [\<lparr>start = sb, end' = (if sb + iv - 1 \<ge> nb then nb else sb + iv - 1)\<rparr>])
       = Some ((acc @ [\<lparr>start = sb, end' = (if sb + iv - 1 \<ge> nb then nb else sb + iv - 1)\<rparr>]) @ groups_from nb (sb + iv))"
      using True pos st by (intro less.hyps) simp_all
    moreover have "base_groups_loop nb sb iv acc = base_groups_loop nb (sb + iv) (next_interval nb (sb + iv) iv) (acc @ [\<lparr>start = sb, end' = (if sb + iv - 1 \<ge> nb then nb else sb + iv - 1)\<rparr>])"
      using True by (subst base_groups_loop.simps) (simp add: next_interval_def Let_def)
    moreover have "groups_from nb sb = \<lparr>start = sb, end' = (if sb + iv - 1 \<ge> nb then nb else sb + iv - 1)\<rparr> # groups_from nb (sb + iv)"
      using True less.prems(1) by (subst groups_from.simps) simp
    ultimately show ?thesis by simp
  qed
qed

lemma make_base_groups_eq: "make_base_groups nb = Some (groups_from nb 0)"
  unfolding make_base_groups_def using loop_eq[of 1 nb 0 "[]"] by (simp add: gated_width_def)


lemma groups_from_start: "g \<in> set (groups_from nb s) \<Longrightarrow> s \<le> start g \<and> start g < nb \<and> start g \<le> end' g"
proof (induction nb s rule: groups_from.induct)
  case (1 nb s)
  show ?case
  proof (cases "s < nb")
    case True
    with "1.prems" have "g = \<lparr>start = s,
         end' = (if s + gated_width nb s - 1 \<ge> nb then nb else s + gated_width nb s - 1)\<rparr>
       \<or> g \<in> set (groups_from nb (s + gated_width nb s))"
      by (subst (asm) groups_from.simps) simp
    then show ?thesis
    proof
      assume "g = \<lparr>start = s,
         end' = (if s + gated_width nb s - 1 \<ge> nb then nb else s + gated_width nb s - 1)\<rparr>"
      with True gated_width_pos[of nb s] show ?thesis by auto
    next
      assume "g \<in> set (groups_from nb (s + gated_width nb s))"
      with "1.IH"[OF True] show ?thesis by simp
    qed
  next
    case False
    with "1.prems" show ?thesis by (subst (asm) groups_from.simps) simp
  qed
qed

lemma groups_from_hd: "s < nb \<Longrightarrow> groups_from nb s \<noteq> [] \<and> start (hd (groups_from nb s)) = s"
  by (subst groups_from.simps, subst (2) groups_from.simps) simp

lemma groups_from_consecutive:
  "successively (\<lambda>a b. start b = end' a + 1) (groups_from nb s)"
proof (induction nb s rule: groups_from.induct)
  case (1 nb s)
  show ?case
  proof (cases "s < nb")
    case True
    let ?w = "gated_width nb s"
    let ?g = "\<lparr>start = s, end' = (if s + ?w - 1 \<ge> nb then nb else s + ?w - 1)\<rparr>"
    have unfold: "groups_from nb s = ?g # groups_from nb (s + ?w)"
      using True by (subst groups_from.simps) simp
    have rest: "successively (\<lambda>a b. start b = end' a + 1) (groups_from nb (s + ?w))"
      using "1.IH"[OF True] .
    have "groups_from nb (s + ?w) = []
          \<or> start (hd (groups_from nb (s + ?w))) = end' ?g + 1"
    proof (cases "s + ?w < nb")
      case True
      with groups_from_hd[OF True] gated_width_pos[of nb s] show ?thesis by simp
    next
      case False
      then show ?thesis by (subst groups_from.simps) simp
    qed
    with rest show ?thesis by (subst unfold) (simp add: successively_Cons)
  next
    case False
    then show ?thesis by (subst groups_from.simps) simp
  qed
qed

lemma groups_from_width:
  "g \<in> set (groups_from nb s) \<Longrightarrow> start g + gated_width nb (start g) \<le> nb
     \<Longrightarrow> end' g = start g + gated_width nb (start g) - 1"
proof (induction nb s rule: groups_from.induct)
  case (1 nb s)
  show ?case
  proof (cases "s < nb")
    case True
    with "1.prems"(1) have "g = \<lparr>start = s,
         end' = (if s + gated_width nb s - 1 \<ge> nb then nb else s + gated_width nb s - 1)\<rparr>
       \<or> g \<in> set (groups_from nb (s + gated_width nb s))"
      by (subst (asm) groups_from.simps) simp
    then show ?thesis
    proof
      assume "g = \<lparr>start = s,
         end' = (if s + gated_width nb s - 1 \<ge> nb then nb else s + gated_width nb s - 1)\<rparr>"
      with "1.prems"(2) gated_width_pos[of nb s] show ?thesis by auto
    next
      assume "g \<in> set (groups_from nb (s + gated_width nb s))"
      with "1.IH"[OF True] "1.prems"(2) show ?thesis by simp
    qed
  next
    case False
    with "1.prems"(1) show ?thesis by (subst (asm) groups_from.simps) simp
  qed
qed

text \<open>
  C3 (the claim: the widths follow the schedule 1, 5, 10, 50, 100, 500 whatever the number
  of bases, and every group lies inside the positions \<open>0 \<dots> num_bases - 1\<close>). With 20 bases
  the group that starts at position 9 has width 1, where the schedule has 5: the source
  widens the interval at position 9 only if there are more than 75 bases.
\<close>

theorem make_base_groups_schedule_counterexample:
  "make_base_groups 20 \<noteq> None
   \<and> the (make_base_groups 20) ! 9 = \<lparr>start = 9, end' = 9\<rparr>
   \<and> end' (the (make_base_groups 20) ! 9) + 1 - start (the (make_base_groups 20) ! 9) = 1
   \<and> spec_width (start (the (make_base_groups 20) ! 9)) = 5"
proof -
  have "make_base_groups 20 = Some (map (\<lambda>i. \<lparr>start = i, end' = i\<rparr>) [0..<20])"
    by (simp add: make_base_groups_def base_groups_loop.simps Let_def upt_conv_Cons)
  then show ?thesis
    by (simp add: spec_width_def)
qed

text \<open>
  C3, amended. For every number of bases \<^verbatim>\<open>make_base_groups\<close> returns, and its groups are
  consecutive: the first starts at position 0, each next one right after the end of the one
  before, and every group starts inside \<open>0 \<dots> n - 1\<close>. A group that starts at a
  position \<open>s\<close> below 999 and whose width fits into the range has the width of the gated
  schedule \<open>gated_width n s\<close>, \<open>n\<close> the number of bases: 1 below position 9, and from positions 9, 49, 99 and
  499 on the widths 5, 10, 50 and 100, each only if the number of bases exceeds 75, 200, 300
  and 1000 respectively (otherwise the width before stays).
\<close>

theorem make_base_groups_gated_schedule:
  "\<exists>gs. make_base_groups n = Some gs
        \<and> (0 < n \<longrightarrow> gs \<noteq> [] \<and> start (hd gs) = 0)
        \<and> successively (\<lambda>a b. start b = end' a + 1) gs
        \<and> (\<forall>g \<in> set gs. start g < n \<and> start g \<le> end' g)
        \<and> (\<forall>g \<in> set gs.
              start g < 999 \<and> start g + gated_width n (start g) \<le> n
              \<longrightarrow> end' g = start g + gated_width n (start g) - 1)"
proof (intro exI conjI)
  show "make_base_groups n = Some (groups_from n 0)"
    by (rule make_base_groups_eq)
  show "0 < n \<longrightarrow> groups_from n 0 \<noteq> [] \<and> start (hd (groups_from n 0)) = 0"
    using groups_from_hd[of 0 n] by simp
  show "successively (\<lambda>a b. start b = end' a + 1) (groups_from n 0)"
    by (rule groups_from_consecutive)
  show "\<forall>g \<in> set (groups_from n 0). start g < n \<and> start g \<le> end' g"
    using groups_from_start[of _ n 0] by simp
  show "\<forall>g \<in> set (groups_from n 0).
              start g < 999 \<and> start g + gated_width n (start g) \<le> n
              \<longrightarrow> end' g = start g + gated_width n (start g) - 1"
    using groups_from_width[of _ n 0] by simp
qed


theorem make_base_groups_gated_schedule_witness:
  "\<exists>gs. make_base_groups 80 = Some gs \<and> length gs = 24 \<and> start (hd gs) = 0
        \<and> start (gs ! 9) = 9 \<and> end' (gs ! 9) = 13 \<and> start (gs ! 10) = 14"
proof -
  define gs where "gs = map (\<lambda>i. \<lparr>start = i, end' = i\<rparr>) [0..<9]
             @ map (\<lambda>k. \<lparr>start = 9 + 5 * k, end' = 13 + 5 * k\<rparr>) [0..<14]
             @ [\<lparr>start = 79, end' = 80\<rparr>]"
  have run: "make_base_groups 80 = Some gs"
    unfolding gs_def
    by (simp add: make_base_groups_def base_groups_loop.simps Let_def upt_conv_Cons)
  from make_base_groups_gated_schedule [of 80] run
  have sched: "\<forall>g \<in> set gs. start g < 999 \<and> start g + gated_width 80 (start g) \<le> 80
                 \<longrightarrow> end' g = start g + gated_width 80 (start g) - 1"
    and first: "start (hd gs) = 0"
    by simp_all
  have len: "length gs = 24" by (simp add: gs_def)
  have mem: "gs ! 9 \<in> set gs" using len by simp
  have s9: "start (gs ! 9) = 9" by (simp add: gs_def upt_conv_Cons)
  have s10: "start (gs ! 10) = 14" by (simp add: gs_def upt_conv_Cons)
  have "start (gs ! 9) < 999 \<and> start (gs ! 9) + gated_width 80 (start (gs ! 9)) \<le> 80
          \<longrightarrow> end' (gs ! 9) = start (gs ! 9) + gated_width 80 (start (gs ! 9)) - 1"
    using sched mem by (rule bspec)
  then have e9: "end' (gs ! 9) = 13" by (simp add: s9 gated_width_def)
  from run len first s9 e9 s10 show ?thesis by (intro exI[of _ gs]) simp
qed

subsection \<open>Per base sequence quality: the quantiles\<close>

lemma fill_histogram:
  "K \<le> n \<Longrightarrow> fold (\<lambda>j h. h[j := h ! j + f j]) [0..<K] (replicate n (0::nat))
     = map (\<lambda>j. if j < K then f j else 0) [0..<n]"
proof (induction K)
  case 0
  show ?case by (simp add: list_eq_iff_nth_eq)
next
  case (Suc K)
  then show ?case
    by (simp add: list_eq_iff_nth_eq nth_list_update)
qed

lemma add_position_fields:
  "cur_ldecile (add_position stats i l) = cur_ldecile l"
  "cur_lquartile (add_position stats i l) = cur_lquartile l"
  "cur_median (add_position stats i l) = cur_median l"
  "cur_uquartile (add_position stats i l) = cur_uquartile l"
  "cur_udecile (add_position stats i l) = cur_udecile l"
  "bases_in_group (add_position stats i l) = bases_at stats i"
  by (simp_all add: add_position_def Let_def)

lemma add_position_histogram:
  "kNumQualityValues stats \<le> 128 \<Longrightarrow>
   histogram (add_position stats i l)
     = map (\<lambda>j. if j < kNumQualityValues stats then position_quality stats i j else 0) [0..<128]"
  by (simp add: add_position_def Let_def fill_histogram)

lemma add_position_hist_ok:
  assumes "consistent_quality_counts stats"
  shows "hist_ok stats (add_position stats i l)"
proof -
  from assms have K: "kNumQualityValues stats \<le> 128"
    and sum: "(\<Sum>j<kNumQualityValues stats. position_quality stats i j) = bases_at stats i"
    by (simp_all add: consistent_quality_counts_def)
  have "(\<Sum>j<kNumQualityValues stats. histogram (add_position stats i l) ! j)
          = (\<Sum>j<kNumQualityValues stats. position_quality stats i j)"
    using K by (intro sum.cong) (simp_all add: add_position_histogram)
  with K sum show ?thesis
    by (simp add: hist_ok_def add_position_histogram add_position_fields)
qed

lemma fold_add_position:
  assumes "consistent_quality_counts stats" "hist_ok stats l"
  shows "hist_ok stats (fold (add_position stats) is l)
         \<and> cur_ldecile (fold (add_position stats) is l) = cur_ldecile l
         \<and> cur_lquartile (fold (add_position stats) is l) = cur_lquartile l
         \<and> cur_median (fold (add_position stats) is l) = cur_median l
         \<and> cur_uquartile (fold (add_position stats) is l) = cur_uquartile l
         \<and> cur_udecile (fold (add_position stats) is l) = cur_udecile l"
  using assms(2)
proof (induction "is" arbitrary: l)
  case Nil
  then show ?case by simp
next
  case (Cons i "is")
  from Cons.IH[OF add_position_hist_ok[OF assms(1), of i l]]
  show ?case by (simp add: add_position_fields)
qed

lemma add_position_absorb:
  "add_position stats i (add_position stats i' l) = add_position stats i l"
  by (simp add: add_position_def Let_def)

lemma fold_add_position_last:
  "fold (add_position stats) (is @ [i]) l = add_position stats i l"
  by (induction "is" arbitrary: l) (simp_all add: add_position_absorb)

lemma quantile_step_fields:
  "counts (quantile_step t1 t2 t3 t4 t5 j l) = counts l + histogram l ! j"
  "histogram (quantile_step t1 t2 t3 t4 t5 j l) = histogram l"
  "bases_in_group (quantile_step t1 t2 t3 t4 t5 j l) = bases_in_group l"
  "cur_ldecile (quantile_step t1 t2 t3 t4 t5 j l) =
     (if real (counts l) < t1 \<and> t1 \<le> real (counts l + histogram l ! j) then j else cur_ldecile l)"
  "cur_lquartile (quantile_step t1 t2 t3 t4 t5 j l) =
     (if real (counts l) < t2 \<and> t2 \<le> real (counts l + histogram l ! j) then j else cur_lquartile l)"
  "cur_median (quantile_step t1 t2 t3 t4 t5 j l) =
     (if real (counts l) < t3 \<and> t3 \<le> real (counts l + histogram l ! j) then j else cur_median l)"
  "cur_uquartile (quantile_step t1 t2 t3 t4 t5 j l) =
     (if real (counts l) < t4 \<and> t4 \<le> real (counts l + histogram l ! j) then j else cur_uquartile l)"
  "cur_udecile (quantile_step t1 t2 t3 t4 t5 j l) =
     (if real (counts l) < t5 \<and> t5 \<le> real (counts l + histogram l ! j) then j else cur_udecile l)"
  by (simp_all add: quantile_step_def Let_def)

lemma scan_counts:
  assumes "\<And>j l. counts (step j l) = counts l + histogram l ! j"
    and "\<And>j l. histogram (step j l) = histogram l"
  shows "counts (fold step [0..<k] l) = counts l + (\<Sum>j<k. histogram l ! j)
         \<and> histogram (fold step [0..<k] l) = histogram l"
  by (induction k) (simp_all add: assms)

lemma scan_unchanged:
  assumes "\<And>j l. q (step j l) = (if real (counts l) < t \<and> t \<le> real (counts l + histogram l ! j) then j else q l)"
    and "t \<le> 0"
  shows "q (fold step js l) = q l"
  using assms(2) by (induction js arbitrary: l) (simp_all add: assms(1))

lemma scan_pair:
  fixes step :: "nat \<Rightarrow> quality_locals \<Rightarrow> quality_locals"
  assumes c: "\<And>j l. counts (step j l) = counts l + histogram l ! j"
    and h: "\<And>j l. histogram (step j l) = histogram l"
    and a: "\<And>j l. qa (step j l) = (if real (counts l) < ta \<and> ta \<le> real (counts l + histogram l ! j) then j else qa l)"
    and b: "\<And>j l. qb (step j l) = (if real (counts l) < tb \<and> tb \<le> real (counts l + histogram l ! j) then j else qb l)"
    and t: "0 < ta" "ta \<le> tb" and l: "counts l = 0"
  shows "(ta \<le> real (counts (fold step [0..<k] l)) \<longrightarrow> qa (fold step [0..<k] l) < k)
       \<and> (tb \<le> real (counts (fold step [0..<k] l)) \<longrightarrow> qb (fold step [0..<k] l) < k)
       \<and> (tb \<le> real (counts (fold step [0..<k] l)) \<longrightarrow> qa (fold step [0..<k] l) \<le> qb (fold step [0..<k] l))"
proof (induction k)
  case 0
  from t l show ?case by simp
next
  case (Suc k)
  define s where "s = fold step [0..<k] l"
  from Suc have IH: "ta \<le> real (counts s) \<longrightarrow> qa s < k" "tb \<le> real (counts s) \<longrightarrow> qb s < k"
     "tb \<le> real (counts s) \<longrightarrow> qa s \<le> qb s"
    by (simp_all add: s_def)
  have step: "fold step [0..<Suc k] l = step k s" by (simp add: s_def)
  show ?case
    unfolding step using IH t by (auto simp: a b c)
qed


lemma scan_bases:
  "bases_in_group (fold (quantile_step t1 t2 t3 t4 t5) js l) = bases_in_group l"
  by (induction js arbitrary: l) (simp_all add: quantile_step_fields)

lemma group_quantiles_mono:
  assumes cons: "consistent_quality_counts stats" and ok: "hist_ok stats l" and mono: "mono5 l"
  shows "hist_ok stats (group_quantiles stats g l) \<and> mono5 (group_quantiles stats g l)"
proof -
  define l1 where "l1 = fold (add_position stats) [start g..<Suc (end' g)] l"
  define N where "N = bases_in_group l1"
  define l2 where "l2 = l1\<lparr>cur_sum := 0, counts := 0\<rparr>"
  define step where "step = quantile_step (0.1 * real N) (0.25 * real N) (0.5 * real N)
                              (0.75 * real N) (0.9 * real N)"
  define K where "K = kNumQualityValues stats"
  define r where "r = fold step [0..<K] l2"
  have r: "group_quantiles stats g l = r"
    by (simp add: group_quantiles_def Let_def l1_def N_def l2_def step_def K_def r_def)
  from fold_add_position[OF cons ok, of "[start g..<Suc (end' g)]"]
  have ok1: "hist_ok stats l1" and same: "cur_ldecile l1 = cur_ldecile l"
    "cur_lquartile l1 = cur_lquartile l" "cur_median l1 = cur_median l"
    "cur_uquartile l1 = cur_uquartile l" "cur_udecile l1 = cur_udecile l"
    by (simp_all add: l1_def)
  have c: "\<And>j l. counts (step j l) = counts l + histogram l ! j"
    and h: "\<And>j l. histogram (step j l) = histogram l"
    by (simp_all add: step_def quantile_step_fields)
  have total: "counts r = N" and hist: "histogram r = histogram l1"
    using scan_counts[of step K l2, OF c h] ok1
    by (simp_all add: r_def l2_def hist_ok_def K_def N_def)
  have bases: "bases_in_group r = N"
    by (simp add: r_def step_def scan_bases l2_def N_def)
  have okr: "hist_ok stats r"
    using ok1 hist bases by (simp add: hist_ok_def N_def)
  have "mono5 r"
  proof (cases "N = 0")
    case True
    have "cur_ldecile r = cur_ldecile l2" "cur_lquartile r = cur_lquartile l2"
      "cur_median r = cur_median l2" "cur_uquartile r = cur_uquartile l2"
      "cur_udecile r = cur_udecile l2"
      unfolding r_def
      by (rule scan_unchanged[where t = 0]; simp add: step_def quantile_step_fields True)+
    with mono same show ?thesis by (simp add: mono5_def l2_def)
  next
    case False
    then have pos: "0 < real N" by simp
    have l20: "counts l2 = 0" by (simp add: l2_def)
    have p12: "cur_ldecile r \<le> cur_lquartile r"
      using scan_pair[of step cur_ldecile "0.1 * real N" cur_lquartile "0.25 * real N" l2 K,
                      OF c h _ _ _ _ l20] pos total
      by (simp add: step_def quantile_step_fields r_def)
    have p23: "cur_lquartile r \<le> cur_median r"
      using scan_pair[of step cur_lquartile "0.25 * real N" cur_median "0.5 * real N" l2 K,
                      OF c h _ _ _ _ l20] pos total
      by (simp add: step_def quantile_step_fields r_def)
    have p34: "cur_median r \<le> cur_uquartile r"
      using scan_pair[of step cur_median "0.5 * real N" cur_uquartile "0.75 * real N" l2 K,
                      OF c h _ _ _ _ l20] pos total
      by (simp add: step_def quantile_step_fields r_def)
    have p45: "cur_uquartile r \<le> cur_udecile r"
      using scan_pair[of step cur_uquartile "0.75 * real N" cur_udecile "0.9 * real N" l2 K,
                      OF c h _ _ _ _ l20] pos total
      by (simp add: step_def quantile_step_fields r_def)
    from p12 p23 p34 p45 show ?thesis by (simp add: mono5_def)
  qed
  with okr r show ?thesis by simp
qed

lemma summarize_group_inv:
  assumes cons: "consistent_quality_counts stats"
    and "hist_ok stats (fst lm)" "mono5 (fst lm)" "mono_groups n (snd lm)"
  shows "hist_ok stats (fst (summarize_group stats grp lm))
         \<and> mono5 (fst (summarize_group stats grp lm))
         \<and> mono_groups n (snd (summarize_group stats grp lm))"
proof -
  define l where "l = group_quantiles stats (base_groups (snd lm) ! grp) (fst lm)"
  from group_quantiles_mono[OF cons assms(2,3)]
  have l: "hist_ok stats l" "mono5 l" by (simp_all add: l_def)
  have upd: "\<And>xs x (g::nat). length xs = n \<Longrightarrow> g < n \<Longrightarrow>
                 (xs[grp := x]) ! g = (if grp = g then x else (xs ! g :: nat))"
    by (simp add: nth_list_update)
  have "mono_groups n (snd (summarize_group stats grp lm))"
    using assms(4) l(2)
    by (simp add: summarize_group_def Let_def l_def[symmetric] mono_groups_def mono5_def upd)
  with l show ?thesis by (simp add: summarize_group_def Let_def l_def[symmetric])
qed

lemma fold_summarize_group_inv:
  assumes cons: "consistent_quality_counts stats"
    and "hist_ok stats (fst lm)" "mono5 (fst lm)" "mono_groups n (snd lm)"
  shows "mono_groups n (snd (fold (summarize_group stats) gs lm))"
  using assms(2-)
proof (induction gs arbitrary: lm)
  case Nil
  then show ?case by simp
next
  case (Cons g gs)
  from summarize_group_inv[OF cons Cons.prems, of g] Cons.IH show ?case by simp
qed

subsection \<open>The example snapshot\<close>

lemma push_bit_or_add:
  fixes i j :: nat
  assumes "j < 2 ^ s"
  shows "push_bit s i OR j = i * 2 ^ s + j"
proof -
  have "take_bit s j = j" using assms by (simp add: take_bit_nat_eq_self)
  then have j: "\<And>n. bit j n \<Longrightarrow> n < s"
    by (metis bit_take_bit_iff)
  have "push_bit s i + j = push_bit s i OR j"
    by (rule disjunctive_add) (auto simp: bit_push_bit_iff dest: j)
  then show ?thesis by (simp add: push_bit_eq_mult)
qed

lemma example_position_quality:
  "j < 128 \<Longrightarrow> position_quality example_stats i j
     = (if i < 80 \<and> j = (if i = 13 then 2 else 40) then 10 else 0)"
  by (simp add: position_quality_def example_stats_def push_bit_or_add)

lemma example_consistent: "consistent_quality_counts example_stats"
proof -
  have "(\<Sum>j<128. position_quality example_stats i j) = bases_at example_stats i" for i
  proof -
    have "(\<Sum>j<128. position_quality example_stats i j)
           = (\<Sum>j<128::nat. if i < 80 \<and> j = (if i = 13 then 2 else 40) then 10 else (0::nat))"
      by (intro sum.cong) (simp_all add: example_position_quality)
    also have "\<dots> = (if i < 80 then 10 else 0)"
      by (simp add: sum.delta')
    finally show ?thesis by (simp add: bases_at_def example_stats_def)
  qed
  then show ?thesis by (simp add: consistent_quality_counts_def example_stats_def)
qed

subsection \<open>Per base sequence quality: the order of the quantiles\<close>

lemma fold_summarize_group_groups:
  "base_groups (snd (fold (summarize_group stats) gs lm)) = base_groups (snd lm)"
  by (induction gs arbitrary: lm) (simp_all add: summarize_group_def Let_def)

text \<open>
  C10. On a snapshot whose positions each have as many quality values counted as bases
  seen, the module finishes, and for every group the five quantiles it records are in order:
  10th percentile \<open>\<le>\<close> lower quartile \<open>\<le>\<close> median \<open>\<le>\<close> upper quartile \<open>\<le>\<close> 90th
  percentile. (A group for which the module counts no base keeps the values of the group
  before it, which are in order as well.)
\<close>

theorem quantiles_monotone:
  assumes "consistent_quality_counts stats"
  shows "\<exists>m'. quality_summarize_module stats m = Some m'
           \<and> (if do_group m then make_base_groups (max_read_length stats)
               else Some (make_default_base_groups (max_read_length stats)))
              = Some (base_groups m')
           \<and> num_groups m' = length (base_groups m')
           \<and> (\<forall>g < num_groups m'.
                 group_ldecile m' ! g \<le> group_lquartile m' ! g
                 \<and> group_lquartile m' ! g \<le> group_median m' ! g
                 \<and> group_median m' ! g \<le> group_uquartile m' ! g
                 \<and> group_uquartile m' ! g \<le> group_udecile m' ! g)"
proof -
  define groups where "groups = (if do_group m then groups_from (max_read_length stats) 0
                                 else make_default_base_groups (max_read_length stats))"
  have groups:
    "(if do_group m then make_base_groups (max_read_length stats)
      else Some (make_default_base_groups (max_read_length stats))) = Some groups"
    by (simp add: groups_def make_base_groups_eq)
  define l0 where "l0 = initial_quality_locals"
  define m0 where "m0 = m\<lparr>ModulePerBaseSequenceQuality.num_bases := max_read_length stats,
                                base_groups := groups,
                                num_groups := length groups,
                                group_mean := replicate (length groups) 0,
                                group_ldecile := replicate (length groups) 0,
                                group_lquartile := replicate (length groups) 0,
                                group_median := replicate (length groups) 0,
                                group_uquartile := replicate (length groups) 0,
                                group_udecile := replicate (length groups) 0\<rparr>"
  define m' where "m' = snd (fold (summarize_group stats) [0..<length groups] (l0, m0))"
  have run: "quality_summarize_module stats m = Some m'"
    using groups by (simp add: quality_summarize_module_def Let_def l0_def m0_def m'_def)
  have bg: "base_groups m' = groups"
    by (simp add: m'_def fold_summarize_group_groups m0_def)
  have "hist_ok stats l0"
    using assms
    by (auto simp: hist_ok_def l0_def initial_quality_locals_def consistent_quality_counts_def)
  moreover have "mono5 l0" "mono_groups (length groups) m0"
    by (simp_all add: mono5_def mono_groups_def l0_def initial_quality_locals_def m0_def)
  ultimately have "hist_ok stats l0" "mono5 l0" "mono_groups (length groups) m0"
    by simp_all
  from fold_summarize_group_inv[OF assms, of "(l0, m0)" "length groups" "[0..<length groups]"] this
  have "mono_groups (length groups) m'" by (simp add: m'_def)
  with run groups bg show ?thesis by (auto simp: mono_groups_def)
qed

theorem quantiles_monotone_witness:
  "\<exists>m'. quality_summarize_module example_stats
           (Module.extend (new_Module ''Per base sequence quality'')
              (ModulePerBaseSequenceQuality.fields 10 5 25 20 True 0 [] 0 [] [] [] [] [] [] 0 0))
          = Some m'
        \<and> num_groups m' = 24
        \<and> group_ldecile m' ! 9 \<le> group_lquartile m' ! 9
        \<and> group_lquartile m' ! 9 \<le> group_median m' ! 9
        \<and> group_median m' ! 9 \<le> group_uquartile m' ! 9
        \<and> group_uquartile m' ! 9 \<le> group_udecile m' ! 9"
proof -
  define m where "m = Module.extend (new_Module ''Per base sequence quality'')
              (ModulePerBaseSequenceQuality.fields 10 5 25 20 True 0 [] 0 [] [] [] [] [] [] 0 0)"
  have dg: "do_group m"
    by (simp add: m_def Module.extend_def ModulePerBaseSequenceQuality.fields_def new_Module_def)
  have len: "length (groups_from 80 0) = 24"
    by (simp add: groups_from.simps gated_width_def)
  obtain m' where m': "quality_summarize_module example_stats m = Some m'"
    "(if do_group m then make_base_groups (max_read_length example_stats)
               else Some (make_default_base_groups (max_read_length example_stats)))
              = Some (base_groups m')"
    "num_groups m' = length (base_groups m')"
    "\<forall>g < num_groups m'.
                 group_ldecile m' ! g \<le> group_lquartile m' ! g
                 \<and> group_lquartile m' ! g \<le> group_median m' ! g
                 \<and> group_median m' ! g \<le> group_uquartile m' ! g
                 \<and> group_uquartile m' ! g \<le> group_udecile m' ! g"
    using quantiles_monotone [OF example_consistent, of m] by blast
  from m'(2) dg have "base_groups m' = groups_from 80 0"
    by (simp add: make_base_groups_eq example_stats_def)
  with m'(3) len have n: "num_groups m' = 24" by simp
  with m'(4) have "group_ldecile m' ! 9 \<le> group_lquartile m' ! 9
                 \<and> group_lquartile m' ! 9 \<le> group_median m' ! 9
                 \<and> group_median m' ! 9 \<le> group_uquartile m' ! 9
                 \<and> group_uquartile m' ! 9 \<le> group_udecile m' ! 9" by simp
  with m'(1) n show ?thesis unfolding m_def by blast
qed

subsection \<open>Per base sequence quality: the histogram of a group\<close>

lemma example_group_histogram:
  "fold (add_position example_stats) [9..<Suc 13] initial_quality_locals
     = initial_quality_locals\<lparr>histogram := map (\<lambda>j. if j = 2 then 10 else 0) [0..<128],
                              bases_in_group := 10\<rparr>"
proof -
  have "[9..<Suc 13] = [9..<13] @ [13]" by simp
  then have "fold (add_position example_stats) [9..<Suc 13] initial_quality_locals
               = add_position example_stats 13 initial_quality_locals"
    by (simp only: fold_add_position_last)
  moreover have "fold (\<lambda>j h. h[j := h ! j + position_quality example_stats 13 j]) [0..<128]
                   (replicate 128 0) = map (\<lambda>j. if j = 2 then 10 else 0) [0..<128]"
    by (subst fill_histogram) (simp_all add: example_position_quality)
  ultimately show ?thesis
    by (simp add: add_position_def Let_def example_stats_def bases_at_def
                  initial_quality_locals_def)
qed


lemma quantile_step_zero:
  "histogram l ! j = 0 \<Longrightarrow> quantile_step t1 t2 t3 t4 t5 j l = l"
  by (simp add: quantile_step_def)

lemma fold_quantile_step_zero:
  "\<forall>j \<in> set js. histogram l ! j = 0 \<Longrightarrow> fold (quantile_step t1 t2 t3 t4 t5) js l = l"
  by (induction js) (simp_all add: quantile_step_zero)

lemma example_scan:
  "fold (quantile_step (0.1 * real (10::nat)) (0.25 * real (10::nat)) (0.5 * real (10::nat))
           (0.75 * real (10::nat)) (0.9 * real (10::nat))) [0..<128]
     (initial_quality_locals\<lparr>histogram := map (\<lambda>j. if j = 2 then 10 else 0) [0..<128],
                              bases_in_group := 10, cur_sum := 0, counts := 0\<rparr>)
   = initial_quality_locals\<lparr>histogram := map (\<lambda>j. if j = 2 then 10 else 0) [0..<128],
                              bases_in_group := 10, cur_sum := 20, counts := 10,
       cur_ldecile := 2, cur_lquartile := 2, cur_median := 2, cur_uquartile := 2, cur_udecile := 2\<rparr>"
proof -
  let ?h = "map (\<lambda>j. if j = 2 then 10 else (0::nat)) [0..<128]"
  let ?l = "initial_quality_locals\<lparr>histogram := ?h, bases_in_group := 10, cur_sum := 0,
                                    counts := 0\<rparr>"
  let ?r = "initial_quality_locals\<lparr>histogram := ?h,
                              bases_in_group := 10, cur_sum := 20, counts := 10,
       cur_ldecile := 2, cur_lquartile := 2, cur_median := 2, cur_uquartile := 2, cur_udecile := 2\<rparr>"
  let ?step = "quantile_step (0.1 * real (10::nat)) (0.25 * real (10::nat)) (0.5 * real (10::nat))
           (0.75 * real (10::nat)) (0.9 * real (10::nat))"
  have split: "[0..<128] = [0..<2] @ [2] @ [3..<128]"
    by (simp add: upt_conv_Cons[of 2 128] upt_add_eq_append[of 0 2 126, simplified] del: upt_Suc)
  have h: "?h ! j = (if j = 2 then 10 else 0)" if "j < 128" for j
    using that by (simp del: upt_Suc map_upt_Suc)
  have a: "fold ?step [0..<2] ?l = ?l"
    by (rule fold_quantile_step_zero) (simp add: h del: upt_Suc map_upt_Suc)
  have b: "?step 2 ?l = ?r"
    by (simp add: quantile_step_def h initial_quality_locals_def del: upt_Suc map_upt_Suc)
  have c: "fold ?step [3..<128] ?r = ?r"
    by (rule fold_quantile_step_zero) (simp add: h del: upt_Suc map_upt_Suc)
  have "fold ?step [0..<128] ?l = fold ?step ([0..<2] @ [2] @ [3..<128]) ?l"
    by (rule arg_cong[where f = "\<lambda>js. fold ?step js ?l", OF split])
  also have "\<dots> = ?r"
    by (simp only: fold_append o_apply fold_simps a b c)
  finally show ?thesis .
qed

text \<open>
  C1 (the claim: the histogram of a group is the sum of the histograms of all its positions,
  and \<open>N\<close> is the number of bases at all its positions). On the example snapshot the
  grouping gives the positions 9 to 13 as tenth group. Over these positions quality 40 is
  counted 40 times and quality 2 ten times, for 50 bases. After the source's loop over the
  positions the histogram has quality 2 ten times and nothing else, \<open>N\<close> is 10, and all
  five quantiles are 2: the statements under \<^verbatim>\<open>reset group values\<close> run for every position,
  so what is left is the last position of the group (lemma \<open>fold_add_position_last\<close>).
\<close>

theorem quality_histogram_last_position_only:
  "(\<exists>gs. make_base_groups (max_read_length example_stats) = Some gs
          \<and> gs ! 9 = \<lparr>start = 9, end' = 13\<rparr>)
   \<and> (\<Sum>i = 9..13. position_quality example_stats i 40) = 40
   \<and> (\<Sum>i = 9..13. position_quality example_stats i 2) = 10
   \<and> (\<Sum>i = 9..13. bases_at example_stats i) = 50
   \<and> (let l = group_quantiles example_stats \<lparr>start = 9, end' = 13\<rparr> initial_quality_locals
       in histogram l ! 40 = 0 \<and> histogram l ! 2 = 10 \<and> bases_in_group l = 10
          \<and> cur_ldecile l = 2 \<and> cur_lquartile l = 2 \<and> cur_median l = 2
          \<and> cur_uquartile l = 2 \<and> cur_udecile l = 2)"
proof (intro conjI)
  have "groups_from 80 0 ! 9 = \<lparr>start = 9, end' = 13\<rparr>"
    by (simp add: groups_from.simps gated_width_def)
  then show "\<exists>gs. make_base_groups (max_read_length example_stats) = Some gs
          \<and> gs ! 9 = \<lparr>start = 9, end' = 13\<rparr>"
    by (simp add: make_base_groups_eq example_stats_def)
  have set: "{9..13::nat} = {9, 10, 11, 12, 13}" by auto
  show "(\<Sum>i = 9..13. position_quality example_stats i 40) = 40"
    by (simp add: set example_position_quality)
  show "(\<Sum>i = 9..13. position_quality example_stats i 2) = 10"
    by (simp add: set example_position_quality)
  show "(\<Sum>i = 9..13. bases_at example_stats i) = 50"
    by (simp add: set bases_at_def example_stats_def)
  define X where "X = initial_quality_locals
                        \<lparr>histogram := map (\<lambda>j. if j = 2 then 10 else 0) [0..<128],
                         bases_in_group := 10\<rparr>"
  have pos: "fold (add_position example_stats)
               [start \<lparr>start = 9, end' = 13\<rparr>..<Suc (end' \<lparr>start = 9, end' = 13\<rparr>)]
               initial_quality_locals = X"
    by (simp only: BaseGroup.select_convs example_group_histogram X_def)
  have N: "bases_in_group X = 10" and K: "kNumQualityValues example_stats = 128"
    by (simp_all add: X_def example_stats_def)
  have X0: "X\<lparr>cur_sum := 0, counts := 0\<rparr>
              = initial_quality_locals\<lparr>histogram := map (\<lambda>j. if j = 2 then 10 else 0) [0..<128],
                              bases_in_group := 10, cur_sum := 0, counts := 0\<rparr>"
    by (simp add: X_def)
  have "group_quantiles example_stats \<lparr>start = 9, end' = 13\<rparr> initial_quality_locals
     = initial_quality_locals\<lparr>histogram := map (\<lambda>j. if j = 2 then 10 else 0) [0..<128],
                              bases_in_group := 10, cur_sum := 20, counts := 10,
       cur_ldecile := 2, cur_lquartile := 2, cur_median := 2, cur_uquartile := 2, cur_udecile := 2\<rparr>"
    by (simp only: group_quantiles_def Let_def pos N K X0 example_scan)
  then show "let l = group_quantiles example_stats \<lparr>start = 9, end' = 13\<rparr> initial_quality_locals
       in histogram l ! 40 = 0 \<and> histogram l ! 2 = 10 \<and> bases_in_group l = 10
          \<and> cur_ldecile l = 2 \<and> cur_lquartile l = 2 \<and> cur_median l = 2
          \<and> cur_uquartile l = 2 \<and> cur_udecile l = 2"
    by (simp add: Let_def)
qed

subsection \<open>Kmer content: the expected count\<close>

lemma count_positions:
  "fold (\<lambda>i m. m\<lparr>total_kmer_counts :=
                     (total_kmer_counts m)[kmer := total_kmer_counts m ! kmer + f i]\<rparr>)
        is (m :: 'a ModuleKmerContent_scheme)
   = m\<lparr>total_kmer_counts :=
         (total_kmer_counts m)[kmer := total_kmer_counts m ! kmer + sum_list (map f is)]\<rparr>"
proof (induction "is" arbitrary: m)
  case Nil
  show ?case by simp
next
  case (Cons i "is")
  show ?case
    by (cases "kmer < length (total_kmer_counts m)") (simp_all add: Cons add.assoc list_update_beyond not_less)
qed

lemma count_kmer_eq:
  "count_kmer stats kmer m =
     m\<lparr>total_kmer_counts :=
         (total_kmer_counts m)[kmer := total_kmer_counts m ! kmer
            + (\<Sum>i = first_kmer_position (kmer_size m)..<num_kmer_bases m.
                 observed_kmer_count stats i kmer)],
       num_seen_kmers :=
         (if 0 < (total_kmer_counts m)[kmer := total_kmer_counts m ! kmer
            + (\<Sum>i = first_kmer_position (kmer_size m)..<num_kmer_bases m.
                 observed_kmer_count stats i kmer)] ! kmer
          then num_seen_kmers m + 1 else num_seen_kmers m)\<rparr>"
  by (simp add: count_kmer_def count_positions Let_def interv_sum_list_conv_sum_set_nat)

lemma fold_count_kmer:
 fixes m :: "'a ModuleKmerContent_scheme" and stats :: FastqStats
  assumes "total_kmer_counts m = replicate n 0" "num_seen_kmers m = 0" "k \<le> n"
  defines "T \<equiv> \<lambda>kmer. \<Sum>i = first_kmer_position (kmer_size m)..<num_kmer_bases m.
                           observed_kmer_count stats i kmer"
  shows "fold (count_kmer stats) [0..<k] m
         = m\<lparr>total_kmer_counts := map (\<lambda>kmer. if kmer < k then T kmer else 0) [0..<n],
             num_seen_kmers := card {kmer. kmer < k \<and> 0 < T kmer}\<rparr>"
  using assms(3)
proof (induction k)
  case 0
  have "map (\<lambda>kmer. 0::nat) [0..<n] = replicate n 0"
    by (simp add: list_eq_iff_nth_eq)
  with assms(1,2) show ?case by simp
next
  case (Suc k)
  then have k: "k < n" by simp
  have set: "{kmer. kmer < Suc k \<and> 0 < T kmer}
               = (if 0 < T k then insert k {kmer. kmer < k \<and> 0 < T kmer}
                  else {kmer. kmer < k \<and> 0 < T kmer})"
    by (auto simp: less_Suc_eq)
  have card: "card {kmer. kmer < Suc k \<and> 0 < T kmer}
               = (if 0 < T k then card {kmer. kmer < k \<and> 0 < T kmer} + 1
                  else card {kmer. kmer < k \<and> 0 < T kmer})"
    unfolding set by simp
  have upd: "(map (\<lambda>kmer. if kmer < k then T kmer else 0) [0..<n])[k := T k]
               = map (\<lambda>kmer. if kmer < Suc k then T kmer else 0) [0..<n]"
    using k by (auto simp: list_eq_iff_nth_eq nth_list_update less_Suc_eq)
  have "fold (count_kmer stats) [0..<Suc k] m
          = count_kmer stats k (fold (count_kmer stats) [0..<k] m)"
    by simp
  also have "\<dots> = count_kmer stats k
        (m\<lparr>total_kmer_counts := map (\<lambda>kmer. if kmer < k then T kmer else 0) [0..<n],
           num_seen_kmers := card {kmer. kmer < k \<and> 0 < T kmer}\<rparr>)"
    using Suc by simp
  also have "\<dots> = m\<lparr>total_kmer_counts := map (\<lambda>kmer. if kmer < Suc k then T kmer else 0) [0..<n],
             num_seen_kmers := card {kmer. kmer < Suc k \<and> 0 < T kmer}\<rparr>"
  proof -
    have Tk: "(\<Sum>i = first_kmer_position (kmer_size m)..<num_kmer_bases m.
                 observed_kmer_count stats i k) = T k"
      by (simp add: T_def)
    show ?thesis using k by (simp add: count_kmer_eq Tk upd card)
  qed
  finally show ?case .
qed


lemma rate_position_fields:
  "ModuleKmerContent.kmer_size (rate_position stats d kmer i m) = ModuleKmerContent.kmer_size m"
  "num_kmers (rate_position stats d kmer i m) = num_kmers m"
  "num_kmer_bases (rate_position stats d kmer i m) = num_kmer_bases m"
  "ModuleKmerContent.pos_kmer_count (rate_position stats d kmer i m) = ModuleKmerContent.pos_kmer_count m"
  "total_kmer_counts (rate_position stats d kmer i m) = total_kmer_counts m"
  "num_seen_kmers (rate_position stats d kmer i m) = num_seen_kmers m"
  "length (obs_exp_max (rate_position stats d kmer i m)) = length (obs_exp_max m)"
  by (simp_all add: rate_position_def Let_def)

lemma rate_position_max:
  "obs_exp_max (rate_position stats d kmer i m)
     = (obs_exp_max m)[kmer :=
          (let r = real (observed_kmer_count stats i kmer)
                     / (real (ModuleKmerContent.pos_kmer_count m i) / d)
           in if i = 0 \<or> r > obs_exp_max m ! kmer then r else obs_exp_max m ! kmer)]"
  by (simp add: rate_position_def Let_def)

lemma fold_rate_position:
  fixes m :: "'a ModuleKmerContent_scheme" and stats :: FastqStats and ns :: nat
  assumes "kmer < length (obs_exp_max m)"
    and "ModuleKmerContent.pos_kmer_count m = FastqStats.pos_kmer_count stats"
  defines "g \<equiv> max_ratio_step (kmer_ratio stats ns kmer)"
  shows "obs_exp_max (fold (rate_position stats (real ns) kmer) is m)
           = (obs_exp_max m)[kmer := fold g is (obs_exp_max m ! kmer)]
         \<and> ModuleKmerContent.kmer_size (fold (rate_position stats (real ns) kmer) is m) = ModuleKmerContent.kmer_size m
         \<and> num_kmers (fold (rate_position stats (real ns) kmer) is m) = num_kmers m
         \<and> num_kmer_bases (fold (rate_position stats (real ns) kmer) is m) = num_kmer_bases m
         \<and> ModuleKmerContent.pos_kmer_count (fold (rate_position stats (real ns) kmer) is m)
             = FastqStats.pos_kmer_count stats
         \<and> total_kmer_counts (fold (rate_position stats (real ns) kmer) is m) = total_kmer_counts m
         \<and> num_seen_kmers (fold (rate_position stats (real ns) kmer) is m) = num_seen_kmers m"
  using assms(1,2)
proof (induction "is" arbitrary: m)
  case Nil
  then show ?case by simp
next
  case (Cons i "is")
  define m1 where "m1 = rate_position stats (real ns) kmer i m"
  have len: "kmer < length (obs_exp_max m1)"
    and p: "ModuleKmerContent.pos_kmer_count m1 = FastqStats.pos_kmer_count stats"
    using Cons.prems by (simp_all add: m1_def rate_position_fields)
  have m1: "obs_exp_max m1 = (obs_exp_max m)[kmer := g i (obs_exp_max m ! kmer)]"
    unfolding m1_def g_def max_ratio_step_def kmer_ratio_def using Cons.prems(2)
    by (simp only: rate_position_max Let_def)
  have same: "ModuleKmerContent.kmer_size m1 = ModuleKmerContent.kmer_size m"
    "num_kmers m1 = num_kmers m" "num_kmer_bases m1 = num_kmer_bases m"
    "total_kmer_counts m1 = total_kmer_counts m" "num_seen_kmers m1 = num_seen_kmers m"
    by (simp_all add: m1_def rate_position_fields)
  from Cons.IH[OF len p] Cons.prems(1) show ?case
    by (simp add: m1_def[symmetric] m1 same)
qed

lemma running_max:
  fixes r :: "nat \<Rightarrow> real"
  assumes "\<And>i. 0 \<le> r i"
  shows "fold (max_ratio_step r) [p..<n] 0 = Max (insert 0 (r ` {p..<n}))"
proof (induction n)
  case 0
  show ?case by simp
next
  case (Suc n)
  show ?case
  proof (cases "p \<le> n")
    case False
    then show ?thesis by simp
  next
    case True
    define M where "M = Max (insert 0 (r ` {p..<n}))"
    have set: "{p..<Suc n} = insert n {p..<n}" using True by auto
    have fin: "finite (insert 0 (r ` {p..<n}))" by simp
    have IH: "fold (max_ratio_step r) [p..<n] 0 = M" using Suc by (simp add: M_def)
    have step: "fold (max_ratio_step r) [p..<Suc n] 0 = max_ratio_step r n M"
      using True IH by simp
    have "insert 0 (r ` {p..<Suc n}) = insert (r n) (insert 0 (r ` {p..<n}))"
      unfolding set by auto
    then have Max: "Max (insert 0 (r ` {p..<Suc n})) = max (r n) M"
      unfolding M_def using Max_insert[OF fin, of "r n"] by simp
    have "max_ratio_step r n M = max (r n) M"
    proof (cases "n = 0")
      case True
      with \<open>p \<le> n\<close> have "M = 0" by (simp add: M_def)
      with True assms[of 0] show ?thesis by (simp add: max_ratio_step_def max_def)
    next
      case False
      then show ?thesis by (simp add: max_ratio_step_def max_def)
    qed
    with step Max show ?thesis by simp
  qed
qed

lemma rate_kmer_fields:
  fixes m :: "'a ModuleKmerContent_scheme" and stats :: FastqStats
  assumes "kmer < length (obs_exp_max m)"
    and "ModuleKmerContent.pos_kmer_count m = FastqStats.pos_kmer_count stats"
  shows "obs_exp_max (rate_kmer stats (real ns) kmer m)
           = (obs_exp_max m)[kmer :=
                fold (max_ratio_step (kmer_ratio stats ns kmer))
                  [first_kmer_position (ModuleKmerContent.kmer_size m)..<num_kmer_bases m]
                  (obs_exp_max m ! kmer)]
         \<and> ModuleKmerContent.kmer_size (rate_kmer stats (real ns) kmer m) = ModuleKmerContent.kmer_size m
         \<and> num_kmers (rate_kmer stats (real ns) kmer m) = num_kmers m
         \<and> num_kmer_bases (rate_kmer stats (real ns) kmer m) = num_kmer_bases m
         \<and> ModuleKmerContent.pos_kmer_count (rate_kmer stats (real ns) kmer m)
             = FastqStats.pos_kmer_count stats
         \<and> total_kmer_counts (rate_kmer stats (real ns) kmer m) = total_kmer_counts m
         \<and> num_seen_kmers (rate_kmer stats (real ns) kmer m) = num_seen_kmers m"
  using fold_rate_position[OF assms, of ns
          "[first_kmer_position (ModuleKmerContent.kmer_size m)..<num_kmer_bases m]"]
  by (simp add: rate_kmer_def Let_def)

lemma fold_rate_kmer:
  fixes m :: "'a ModuleKmerContent_scheme" and stats :: FastqStats and ns :: nat
  assumes "obs_exp_max m = replicate n 0" "k \<le> n"
    and "ModuleKmerContent.pos_kmer_count m = FastqStats.pos_kmer_count stats"
  defines "Mx \<equiv> \<lambda>kmer. fold (max_ratio_step (kmer_ratio stats ns kmer))
                  [first_kmer_position (ModuleKmerContent.kmer_size m)..<num_kmer_bases m] 0"
  shows "obs_exp_max (fold (rate_kmer stats (real ns)) [0..<k] m)
           = map (\<lambda>kmer. if kmer < k then Mx kmer else 0) [0..<n]
         \<and> ModuleKmerContent.kmer_size (fold (rate_kmer stats (real ns)) [0..<k] m) = ModuleKmerContent.kmer_size m
         \<and> num_kmers (fold (rate_kmer stats (real ns)) [0..<k] m) = num_kmers m
         \<and> num_kmer_bases (fold (rate_kmer stats (real ns)) [0..<k] m) = num_kmer_bases m
         \<and> ModuleKmerContent.pos_kmer_count (fold (rate_kmer stats (real ns)) [0..<k] m)
             = FastqStats.pos_kmer_count stats
         \<and> total_kmer_counts (fold (rate_kmer stats (real ns)) [0..<k] m) = total_kmer_counts m
         \<and> num_seen_kmers (fold (rate_kmer stats (real ns)) [0..<k] m) = num_seen_kmers m"
  using assms(2)
proof (induction k)
  case 0
  have "map (\<lambda>kmer. 0::real) [0..<n] = replicate n 0"
    by (simp add: list_eq_iff_nth_eq)
  with assms(1,3) show ?case by simp
next
  case (Suc k)
  then have k: "k < n" by simp
  define m1 where "m1 = fold (rate_kmer stats (real ns)) [0..<k] m"
  from Suc have IH: "obs_exp_max m1 = map (\<lambda>kmer. if kmer < k then Mx kmer else 0) [0..<n]"
    "ModuleKmerContent.kmer_size m1 = ModuleKmerContent.kmer_size m" "num_kmers m1 = num_kmers m"
    "num_kmer_bases m1 = num_kmer_bases m"
    "ModuleKmerContent.pos_kmer_count m1 = FastqStats.pos_kmer_count stats"
    "total_kmer_counts m1 = total_kmer_counts m" "num_seen_kmers m1 = num_seen_kmers m"
    by (simp_all add: m1_def)
  have len: "k < length (obs_exp_max m1)" using k by (simp add: IH(1))
  have at: "obs_exp_max m1 ! k = 0" using k by (simp add: IH(1))
  have upd: "(map (\<lambda>kmer. if kmer < k then Mx kmer else 0) [0..<n])[k := Mx k]
               = map (\<lambda>kmer. if kmer < Suc k then Mx kmer else 0) [0..<n]"
    using k by (auto simp: list_eq_iff_nth_eq nth_list_update less_Suc_eq)
  have step: "fold (rate_kmer stats (real ns)) [0..<Suc k] m = rate_kmer stats (real ns) k m1"
    by (simp add: m1_def)
  have at': "map (\<lambda>kmer. if kmer < k then Mx kmer else 0) [0..<n] ! k = 0"
    using k by simp
  have Mk: "fold (max_ratio_step (kmer_ratio stats ns k))
                  [first_kmer_position (ModuleKmerContent.kmer_size m)..<num_kmer_bases m] 0 = Mx k"
    by (simp only: Mx_def)
  from rate_kmer_fields[OF len IH(5), of ns]
  show ?case
    unfolding step by (simp only: IH at' Mk upd) 
qed

lemma kmer_summarize_module_eq:
  fixes m :: "'a ModuleKmerContent_scheme" and stats :: FastqStats
  defines "n \<equiv> 2 ^ (2 * FastqStats.kmer_size stats)"
  defines "m' \<equiv> kmer_summarize_module stats m"
  shows "num_kmers m' = n"
    and "num_seen_kmers m' = card {kmer. kmer < n \<and> 0 < kmer_total stats kmer}"
    and "kmer < n \<Longrightarrow> total_kmer_counts m' ! kmer = kmer_total stats kmer"
    and "kmer < n \<Longrightarrow> obs_exp_max m' ! kmer
           = Max (insert 0 (kmer_ratio stats (num_seen_kmers m') kmer ` kmer_positions stats))"
proof -
  define m0 where "m0 = m\<lparr>kmer_size := FastqStats.kmer_size stats,
                 num_kmers := n,
                 num_kmer_bases := (if max_read_length stats < kNumBases stats
                                    then max_read_length stats else kNumBases stats),
                 pos_kmer_count := FastqStats.pos_kmer_count stats,
                 obs_exp_max := replicate n 0,
                 where_obs_exp_is_max := replicate n 0,
                 total_kmer_counts := replicate n 0,
                 num_seen_kmers := 0\<rparr>"
  define m1 where "m1 = fold (count_kmer stats) [0..<n] m0"
  define ns where "ns = card {kmer. kmer < n \<and> 0 < kmer_total stats kmer}"
  define m2 where "m2 = fold (rate_kmer stats (real ns)) [0..<n] m1"
  have T: "(\<Sum>i = first_kmer_position (ModuleKmerContent.kmer_size m0)..<num_kmer_bases m0.
              observed_kmer_count stats i kmer) = kmer_total stats kmer" for kmer
    by (simp add: kmer_total_def kmer_positions_def m0_def)
  have "total_kmer_counts m0 = replicate n 0" "num_seen_kmers m0 = 0"
    by (simp_all add: m0_def)
  from fold_count_kmer[OF this order_refl, of stats]
  have m1: "m1 = m0\<lparr>total_kmer_counts := map (\<lambda>kmer. if kmer < n then kmer_total stats kmer else 0) [0..<n],
             num_seen_kmers := ns\<rparr>"
    unfolding m1_def ns_def by (simp only: T)
  have f1: "num_kmers m1 = n" "num_seen_kmers m1 = ns" "obs_exp_max m1 = replicate n 0"
    "ModuleKmerContent.pos_kmer_count m1 = FastqStats.pos_kmer_count stats"
    "ModuleKmerContent.kmer_size m1 = FastqStats.kmer_size stats"
    "num_kmer_bases m1 = (if max_read_length stats < kNumBases stats
                                    then max_read_length stats else kNumBases stats)"
    "total_kmer_counts m1 = map (\<lambda>kmer. if kmer < n then kmer_total stats kmer else 0) [0..<n]"
    by (simp_all add: m1 m0_def)
  have "m' = (let m = fold (count_kmer stats) [0..<n] m0;
                 dividend = real (num_seen_kmers m);
                 m = fold (rate_kmer stats dividend) [0..<num_kmers m] m
             in m\<lparr>kmers_to_report := rev (sort_key snd (kmers_to_report m))\<rparr>)"
    by (simp add: m'_def kmer_summarize_module_def Let_def m0_def n_def)
  then have m': "m' = m2\<lparr>kmers_to_report := rev (sort_key snd (kmers_to_report m2))\<rparr>"
    by (simp only: Let_def m1_def[symmetric] f1 m2_def[symmetric])
  note r = fold_rate_kmer[OF f1(3) order_refl f1(4), of ns, folded m2_def]
  show "num_kmers m' = n" using r by (simp add: m' f1)
  show seen: "num_seen_kmers m' = card {kmer. kmer < n \<and> 0 < kmer_total stats kmer}"
    using r by (simp add: m' f1 ns_def)
  show "total_kmer_counts m' ! kmer = kmer_total stats kmer" if "kmer < n"
    using r that by (simp add: m' f1)
  show "obs_exp_max m' ! kmer
           = Max (insert 0 (kmer_ratio stats (num_seen_kmers m') kmer ` kmer_positions stats))"
    if "kmer < n"
  proof -
    have ns: "num_seen_kmers m' = ns" using seen by (simp add: ns_def)
    have "obs_exp_max m' ! kmer
            = fold (max_ratio_step (kmer_ratio stats ns kmer))
                [first_kmer_position (FastqStats.kmer_size stats)
                  ..<(if max_read_length stats < kNumBases stats
                      then max_read_length stats else kNumBases stats)] 0"
      using r that by (simp add: m' f1)
    also have "\<dots> = Max (insert 0 (kmer_ratio stats ns kmer ` kmer_positions stats))"
      unfolding kmer_positions_def by (rule running_max) (simp add: kmer_ratio_def)
    finally show ?thesis by (simp only: ns)
  qed
qed

lemma example_observed:
  "kmer < 16384 \<Longrightarrow> observed_kmer_count example_kmer_stats i kmer
     = (if i = 6 \<and> kmer = 5 then 3 else if i = 7 \<and> kmer = 5 then 1
        else if i = 7 \<and> kmer = 9 then 2 else 0)"
  by (simp add: observed_kmer_count_def example_kmer_stats_def push_bit_or_add)

lemma example_pos_kmer_count:
  "FastqStats.pos_kmer_count example_kmer_stats i = (if i = 6 then 3 else if i = 7 then 3 else 0)"
  by (simp add: example_kmer_stats_def)

lemma example_positions: "kmer_positions example_kmer_stats = {6, 7}"
  by (auto simp: kmer_positions_def example_kmer_stats_def first_kmer_position_def)

lemma example_total:
  "kmer < 16384 \<Longrightarrow> kmer_total example_kmer_stats kmer
     = (if kmer = 5 then 4 else if kmer = 9 then 2 else 0)"
  by (simp add: kmer_total_def example_positions example_observed)

lemma example_seen:
  "card {kmer. kmer < 2 ^ (2 * FastqStats.kmer_size example_kmer_stats)
               \<and> 0 < kmer_total example_kmer_stats kmer} = 2"
proof -
  have ks: "FastqStats.kmer_size example_kmer_stats = 7"
    by (simp add: example_kmer_stats_def)
  have "{kmer. kmer < 2 ^ (2 * FastqStats.kmer_size example_kmer_stats)
               \<and> 0 < kmer_total example_kmer_stats kmer} = {5, 9}"
    by (auto simp: ks example_total split: if_splits)
  then show ?thesis by simp
qed

text \<open>
  C2 (the claim: the expected count of a k-mer at a position is the total count of the k-mer
  over all positions, divided by the number of k-mers seen). On the example snapshot two
  k-mers are seen and k-mer 5 is counted 4 times in all, 3 times at position 6, where 3
  k-mers are counted. The module records the maximal ratio 2 for k-mer 5, which is
  \<open>3 / (3 / 2)\<close>: the expected count at position 6 is the count of k-mers at that position
  divided by the number of k-mers seen. With the expected count of the claim, \<open>4 / 2\<close>, the
  maximal ratio would be \<open>3 / 2\<close>.
\<close>

theorem kmer_expected_count_counterexample:
  "num_seen_kmers (kmer_summarize_module example_kmer_stats example_kmer_module) = 2
   \<and> total_kmer_counts (kmer_summarize_module example_kmer_stats example_kmer_module) ! 5 = 4
   \<and> FastqStats.pos_kmer_count example_kmer_stats 6 = 3
   \<and> obs_exp_max (kmer_summarize_module example_kmer_stats example_kmer_module) ! 5 = 2
   \<and> Max (insert 0 (claimed_kmer_ratio example_kmer_stats 2 5
                      ` kmer_positions example_kmer_stats)) = 3 / 2"
proof -
  define m' where "m' = kmer_summarize_module example_kmer_stats example_kmer_module"
  have n: "(5::nat) < 2 ^ (2 * FastqStats.kmer_size example_kmer_stats)"
    by (simp add: example_kmer_stats_def)
  have seen: "num_seen_kmers m' = 2"
    unfolding m'_def by (simp only: kmer_summarize_module_eq(2) example_seen)
  have total: "total_kmer_counts m' ! 5 = 4"
    unfolding m'_def by (simp only: kmer_summarize_module_eq(3)[OF n]) (simp add: example_total)
  have pos: "FastqStats.pos_kmer_count example_kmer_stats 6 = 3"
    by (simp add: example_pos_kmer_count)
  have "obs_exp_max m' ! 5
          = Max (insert 0 (kmer_ratio example_kmer_stats 2 5 ` kmer_positions example_kmer_stats))"
    unfolding m'_def
    using kmer_summarize_module_eq(4)[OF n, of example_kmer_module] seen[unfolded m'_def]
    by simp
  also have "\<dots> = 2"
    by (simp add: example_positions kmer_ratio_def example_observed example_pos_kmer_count)
  finally have max: "obs_exp_max m' ! 5 = 2" .
  have claimed: "Max (insert 0 (claimed_kmer_ratio example_kmer_stats 2 5
                            ` kmer_positions example_kmer_stats)) = 3 / 2"
    by (simp add: example_positions claimed_kmer_ratio_def example_observed example_total)
  from seen total pos max claimed show ?thesis
    by (simp add: m'_def)
qed

text \<open>
  C2, amended. The number of k-mers seen is the number of k-mers whose total count over the
  positions is positive, and where no division by zero occurs (some k-mer is seen, and
  k-mers are counted at each position) the maximal ratio recorded for a k-mer is the largest
  of its ratios at the positions, the ratio at position \<open>i\<close> being the observed count
  divided by the expected count \<open>pos_kmer_count[i] / num_seen_kmers\<close>: the number of k-mers
  counted at that position, divided by the number of k-mers seen.
\<close>

theorem kmer_expected_count:
  fixes m :: "'a ModuleKmerContent_scheme"
  assumes "0 < num_seen_kmers (kmer_summarize_module stats m)"
    and "\<forall>i \<in> kmer_positions stats. 0 < FastqStats.pos_kmer_count stats i"
    and "kmer < 2 ^ (2 * FastqStats.kmer_size stats)"
  shows "let m' = kmer_summarize_module stats m
         in num_seen_kmers m'
              = card {k. k < 2 ^ (2 * FastqStats.kmer_size stats) \<and> 0 < kmer_total stats k}
            \<and> obs_exp_max m' ! kmer
              = Max (insert 0
                  ((\<lambda>i. real (observed_kmer_count stats i kmer)
                          / (real (FastqStats.pos_kmer_count stats i) / real (num_seen_kmers m')))
                   ` kmer_positions stats))"
  using kmer_summarize_module_eq(2)[of stats m] kmer_summarize_module_eq(4)[OF assms(3), of m]
  by (simp add: Let_def kmer_ratio_def[abs_def])

theorem kmer_expected_count_witness:
  "(let m' = kmer_summarize_module example_kmer_stats
               example_kmer_module
    in num_seen_kmers m' = 2
       \<and> obs_exp_max m' ! 5
           = Max (insert 0
                  ((\<lambda>i. real (observed_kmer_count example_kmer_stats i 5)
                          / (real (FastqStats.pos_kmer_count example_kmer_stats i)
                             / real (num_seen_kmers m')))
                   ` kmer_positions example_kmer_stats)))"
proof -
  define m where "m = example_kmer_module"
  have seen: "num_seen_kmers (kmer_summarize_module example_kmer_stats m) = 2"
    by (simp only: kmer_summarize_module_eq(2) example_seen)
  have a: "0 < num_seen_kmers (kmer_summarize_module example_kmer_stats m)"
    by (simp add: seen)
  have b: "\<forall>i \<in> kmer_positions example_kmer_stats.
             0 < FastqStats.pos_kmer_count example_kmer_stats i"
    by (simp add: example_positions example_pos_kmer_count)
  have c: "(5::nat) < 2 ^ (2 * FastqStats.kmer_size example_kmer_stats)"
    by (simp add: example_kmer_stats_def)
  from kmer_expected_count[OF a b c] seen show ?thesis
    unfolding m_def by (simp add: Let_def example_seen)
qed

subsection \<open>Per sequence GC content: the standard deviation\<close>

lemma count_and_mode_step_fields:
  "total_count (count_and_mode_step gc_count i l) = total_count l + gc_count i"
  "mode (count_and_mode_step gc_count i l) = mode l"
  "stdev (count_and_mode_step gc_count i l) = stdev l"
  by (simp_all add: count_and_mode_step_def Let_def)

lemma fold_count_and_mode_step:
  "total_count (fold (count_and_mode_step gc_count) [0..<n] l)
     = total_count l + (\<Sum>i<n. gc_count i)"
  by (induction n) (simp_all add: count_and_mode_step_fields)

lemma adjacent_loop_total_count:
  "total_count (fst (adjacent_loop gc_count is l)) = total_count l"
  by (induction "is" arbitrary: l) simp_all

lemma fold_stdev:
  "fold (\<lambda>i l. l\<lparr>stdev := stdev l + (real i - mode l) * (real i - mode l) * gc_count i\<rparr>)
        [0..<n] l
     = l\<lparr>stdev := stdev l + (\<Sum>i<n. (real i - mode l)\<^sup>2 * gc_count i)\<rparr>"
  by (induction n) (simp_all add: power2_eq_square)

lemma adjacent_loop_snd_fields:
  "first_mode (fst (adjacent_loop gc_count is l)) = first_mode l"
  by (induction "is" arbitrary: l) simp_all

lemma copied_from_fastqc_stdev:
  "stdev (copied_from_fastqc gc_count)
     = sample_stdev gc_count (mode (copied_from_fastqc gc_count))
   \<and> total_count (copied_from_fastqc gc_count) = (\<Sum>i<num_gc_bins. gc_count i)"
proof -
  define l0 where "l0 = \<lparr>total_count = 0, first_mode = 0, mode_count = 0, mode = 0,
    mode_duplicates = 0, fell_off_top = True, fell_off_bottom = True, stdev = 0\<rparr>"
  define l1 where "l1 = fold (count_and_mode_step gc_count) [0..<num_gc_bins] l0"
  define l2 where "l2 = fst (adjacent_loop gc_count [first_mode l1..<num_gc_bins] l1)
                          \<lparr>fell_off_top := snd (adjacent_loop gc_count [first_mode l1..<num_gc_bins] l1)\<rparr>"
  define l3 where "l3 = fst (adjacent_loop gc_count (rev [0..<first_mode l2]) l2)
                          \<lparr>fell_off_bottom := snd (adjacent_loop gc_count (rev [0..<first_mode l2]) l2)\<rparr>"
  define l4 where "l4 = (if fell_off_bottom l3 \<or> fell_off_top l3 then l3\<lparr>mode := real (first_mode l3)\<rparr>
               else l3\<lparr>mode := mode l3 / real (mode_duplicates l3)\<rparr>)"
  have t1: "total_count l1 = (\<Sum>i<num_gc_bins. gc_count i)"
    by (simp add: l1_def fold_count_and_mode_step l0_def)
  have t2: "total_count l2 = total_count l1"
    by (simp add: l2_def adjacent_loop_total_count)
  have t3: "total_count l3 = total_count l2"
    by (simp add: l3_def adjacent_loop_total_count)
  have t4: "total_count l4 = total_count l3"
    by (simp add: l4_def)
  have eq: "copied_from_fastqc gc_count
              = l4\<lparr>stdev := sqrt ((\<Sum>i<num_gc_bins. (real i - mode l4)\<^sup>2 * gc_count i)
                                   / (total_count l4 - 1))\<rparr>"
    unfolding copied_from_fastqc_def Let_def l0_def [symmetric] l1_def [symmetric]
      split_beta l2_def [symmetric] l3_def [symmetric] l4_def [symmetric]
    by (simp add: fold_stdev)
  show ?thesis
    by (simp add: eq sample_stdev_def weighted_square_deviation_def t1 t2 t3 t4)
qed

lemma count_and_mode_step_zero:
  "gc_count i = 0 \<Longrightarrow> 0 \<le> mode_count l \<Longrightarrow> count_and_mode_step gc_count i l = l"
  by (simp add: count_and_mode_step_def Let_def)

lemma fold_count_and_mode_step_zero:
  "\<forall>i \<in> set is. gc_count i = 0 \<Longrightarrow> 0 \<le> mode_count l
   \<Longrightarrow> fold (count_and_mode_step gc_count) is l = l"
  by (induction "is") (simp_all add: count_and_mode_step_zero)

lemma example_first_loop:
  "fold (count_and_mode_step example_gc_count) [0..<num_gc_bins]
        \<lparr>total_count = 0, first_mode = 0, mode_count = 0, mode = 0, mode_duplicates = 0,
         fell_off_top = True, fell_off_bottom = True, stdev = 0\<rparr>
     = \<lparr>total_count = 5, first_mode = 50, mode_count = 4, mode = 0, mode_duplicates = 0,
         fell_off_top = True, fell_off_bottom = True, stdev = 0\<rparr>"
proof -
  let ?step = "count_and_mode_step example_gc_count"
  let ?l0 = "\<lparr>total_count = 0, first_mode = 0, mode_count = 0, mode = 0, mode_duplicates = 0,
               fell_off_top = True, fell_off_bottom = True, stdev = 0\<rparr>"
  let ?l1 = "\<lparr>total_count = 1, first_mode = 46, mode_count = 1, mode = 0, mode_duplicates = 0,
               fell_off_top = True, fell_off_bottom = True, stdev = 0\<rparr>"
  let ?l2 = "\<lparr>total_count = 5, first_mode = 50, mode_count = 4, mode = 0, mode_duplicates = 0,
               fell_off_top = True, fell_off_bottom = True, stdev = 0\<rparr>"
  have split: "[0..<num_gc_bins] = [0..<46] @ [46] @ [47..<50] @ [50] @ [51..<101]"
    by (simp add: num_gc_bins_def upt_conv_Cons[of 46 101] upt_conv_Cons[of 50 101]
                  upt_add_eq_append[of 0 46 55, simplified]
                  upt_add_eq_append[of 47 50 51, simplified] del: upt_Suc)
  have a: "fold ?step [0..<46] ?l0 = ?l0"
    by (rule fold_count_and_mode_step_zero) (simp_all add: example_gc_count_def del: upt_Suc)
  have b: "?step 46 ?l0 = ?l1"
    by (simp add: count_and_mode_step_def example_gc_count_def)
  have c: "fold ?step [47..<50] ?l1 = ?l1"
    by (rule fold_count_and_mode_step_zero) (simp_all add: example_gc_count_def del: upt_Suc)
  have d: "?step 50 ?l1 = ?l2"
    by (simp add: count_and_mode_step_def example_gc_count_def)
  have e: "fold ?step [51..<101] ?l2 = ?l2"
    by (rule fold_count_and_mode_step_zero) (simp_all add: example_gc_count_def del: upt_Suc)
  have "fold ?step [0..<num_gc_bins] ?l0
          = fold ?step ([0..<46] @ [46] @ [47..<50] @ [50] @ [51..<101]) ?l0"
    by (rule arg_cong[where f = "\<lambda>js. fold ?step js ?l0", OF split])
  also have "\<dots> = ?l2"
    by (simp only: fold_append o_apply fold_simps a b c d e)
  finally show ?thesis .
qed

lemma example_top:
  "adjacent_loop example_gc_count [50..<num_gc_bins]
     \<lparr>total_count = 5, first_mode = 50, mode_count = 4, mode = 0, mode_duplicates = 0,
      fell_off_top = True, fell_off_bottom = True, stdev = 0\<rparr>
   = (\<lparr>total_count = 5, first_mode = 50, mode_count = 4, mode = 50, mode_duplicates = 1,
       fell_off_top = True, fell_off_bottom = True, stdev = 0\<rparr>, False)"
proof -
  have "[50..<num_gc_bins] = 50 # 51 # [52..<101]"
    by (simp add: num_gc_bins_def upt_conv_Cons[of 50 101] upt_conv_Cons[of 51 101] del: upt_Suc)
  then show ?thesis
    by (simp add: example_gc_count_def del: upt_Suc)
qed

lemma example_bottom:
  assumes "first_mode l = 50"
  shows "adjacent_loop example_gc_count (rev [0..<50]) l = (l, False)"
proof -
  have "rev [0..<50] = 49 # rev [0..<49]"
    using upt_Suc_append[of 0 49] by (simp del: upt_Suc)
  then show ?thesis
    using assms by (simp add: example_gc_count_def del: upt_Suc)
qed

lemma example_square_deviation:
  "weighted_square_deviation example_gc_count 50 = 16"
proof -
  have "weighted_square_deviation example_gc_count 50
          = (\<Sum>i<num_gc_bins. if i = 46 then 16 else 0)"
    unfolding weighted_square_deviation_def
    by (rule sum.cong) (auto simp: example_gc_count_def)
  also have "\<dots> = 16"
    by (simp add: num_gc_bins_def)
  finally show ?thesis .
qed

lemma example_total_count:
  "(\<Sum>i<num_gc_bins. example_gc_count i) = 5"
proof -
  have "(\<Sum>i<num_gc_bins. example_gc_count i)
          = (\<Sum>i<num_gc_bins. if i = 50 then 4 else 0) + (\<Sum>i<num_gc_bins. if i = 46 then 1 else 0)"
    unfolding sum.distrib [symmetric]
    by (rule sum.cong) (auto simp: example_gc_count_def)
  also have "\<dots> = 5"
    by (simp add: num_gc_bins_def)
  finally show ?thesis .
qed

lemma example_mode:
  "mode (copied_from_fastqc example_gc_count) = 50"
  unfolding copied_from_fastqc_def Let_def example_first_loop
  by (simp add: example_top example_bottom fold_stdev del: upt_Suc)

text \<open>
  C4 (the claim: the standard deviation is that of a population, the weighted sum of the
  squared deviations divided by the total count \<open>N\<close>). For the example counts the centre is
  the bin 50, the weighted sum of the squared deviations is 16 and the total count is 5;
  the source's result is 2, the square root of \<open>16 / 4\<close>, and not that of \<open>16 / 5\<close>.
\<close>

theorem gc_stdev_not_population:
  "mode (copied_from_fastqc example_gc_count) = 50
   \<and> stdev (copied_from_fastqc example_gc_count) = 2
   \<and> population_stdev example_gc_count (mode (copied_from_fastqc example_gc_count)) = sqrt (16 / 5)
   \<and> population_stdev example_gc_count (mode (copied_from_fastqc example_gc_count))
       \<noteq> stdev (copied_from_fastqc example_gc_count)"
proof -
  have s: "stdev (copied_from_fastqc example_gc_count) = 2"
    using copied_from_fastqc_stdev [of example_gc_count] real_sqrt_four
    by (simp add: example_mode sample_stdev_def example_square_deviation example_total_count
             del: real_sqrt_four)
  have p: "population_stdev example_gc_count 50 = sqrt (16 / 5)"
    by (simp add: population_stdev_def example_square_deviation example_total_count)
  have "sqrt (16 / 5) \<noteq> 2"
  proof
    assume a: "sqrt (16 / 5) = 2"
    have "(sqrt (16 / 5))\<^sup>2 = 16 / 5"
      by simp
    with a show False
      by simp
  qed
  with s p show ?thesis
    by (simp add: example_mode)
qed

text \<open>
  C4, amended. For counts that are not negative and add up to more than 1, the standard
  deviation that the source computes is that of a sample: the weighted sum of the squared
  deviations of the bin index from the centre, divided by the total count less one, then
  square-rooted. The total count is the sum of the counts of the 101 bins.
\<close>

theorem gc_stdev_sample:
  assumes "\<forall>i<num_gc_bins. 0 \<le> gc_count i" and "1 < (\<Sum>i<num_gc_bins. gc_count i)"
  shows "total_count (copied_from_fastqc gc_count) = (\<Sum>i<num_gc_bins. gc_count i)
         \<and> stdev (copied_from_fastqc gc_count)
             = sqrt (weighted_square_deviation gc_count (mode (copied_from_fastqc gc_count))
                     / (total_count (copied_from_fastqc gc_count) - 1))"
  using copied_from_fastqc_stdev [of gc_count] by (simp add: sample_stdev_def)

theorem gc_stdev_sample_witness:
  "total_count (copied_from_fastqc example_gc_count) = 5
   \<and> stdev (copied_from_fastqc example_gc_count) = sqrt (16 / (5 - 1))"
proof -
  have "\<forall>i<num_gc_bins. 0 \<le> example_gc_count i"
    by (simp add: example_gc_count_def)
  moreover have "1 < (\<Sum>i<num_gc_bins. example_gc_count i)"
    by (simp add: example_total_count)
  ultimately show ?thesis
    using gc_stdev_sample [of example_gc_count]
    by (simp add: example_total_count example_mode example_square_deviation)
qed

end
